theory Spec2Isabelle
  imports Main "HOL-Library.Signed_Division"
begin

section \<open>Data model (main.cpp, lines 27-113)\<close>

text \<open>
  The enumerations of the source. \<open>PlayerType::None\<close>, \<open>PlayerType::X\<close> and
  \<open>PlayerType::O\<close> are written \<open>P_None\<close>, \<open>P_X\<close> and \<open>P_O\<close>: \<open>None\<close> is the
  constructor of \<open>option\<close> and \<open>O\<close> is the composition of relations in HOL.
  \<open>P_None\<close> has the value 0, so a board cleared by \<open>memset(.., 0, ..)\<close> holds
  \<open>P_None\<close> everywhere.
\<close>

datatype GameState = StillPlaying | Won | Draw

datatype PlayerType = P_None | P_X | P_O

text \<open>
  \<open>struct Game\<close>. The two mutexes, the condition variable and the pointer to the unique
  lock are not data: they appear in the model of the threads further down, as the atomicity
  of the code that runs between two waits and as the record of who has been notified.
  The board \<open>PlayerType gameBoard[3][3]\<close> is a function of the row and the column; the code
  reads and writes it at indices 0, 1 and 2 only. The fields of type \<open>int\<close> are integers:
  the counters of the program are bounded by the number of games and of players, both
  \<open>int\<close> themselves, so no arithmetic of the program wraps around.
\<close>

record Game =
  playerCount :: int
  gameNumber :: int
  currentTurn :: PlayerType
  currentGameState :: GameState
  playerX :: int
  playerO :: int
  gameBoard :: "int \<Rightarrow> int \<Rightarrow> PlayerType"

text \<open>
  \<open>struct Player\<close>. The field \<open>id\<close> is \<open>id_p\<close> here (\<open>id\<close> is the identity function of
  HOL). The pointers to the two pools are left out, and the random number generator
  \<open>myRand\<close> is replaced by the number it returns, an argument of the function that draws it.
\<close>

record Player =
  id_p :: int
  gamesPlayed :: int
  winCount :: int
  loseCount :: int
  drawCount :: int
  type :: PlayerType

text \<open>\<open>struct PlayerPool\<close>, without its mutexes and condition variables.\<close>

record PlayerPool =
  totalPlayerCount :: int
  gunFlag :: bool

section \<open>The board: \<open>DidWeWin\<close> (lines 168-190)\<close>

text \<open>
  One pass of the loop \<open>for (int i = 0; i < 3; i++)\<close> over the four flags
  \<open>completeRow\<close>, \<open>completeCol\<close>, \<open>completeDiagonalA\<close>, \<open>completeDiagonalB\<close>.
\<close>

definition DidWeWin_body ::
  "int \<Rightarrow> int \<Rightarrow> Game \<Rightarrow> Player \<Rightarrow> int \<Rightarrow> bool \<times> bool \<times> bool \<times> bool \<Rightarrow> bool \<times> bool \<times> bool \<times> bool" where
  "DidWeWin_body row col game player i flags =
     (case flags of (completeRow, completeCol, completeDiagonalA, completeDiagonalB) \<Rightarrow>
        (if gameBoard game row i \<noteq> type player then False else completeRow,
         if gameBoard game i col \<noteq> type player then False else completeCol,
         if gameBoard game i i \<noteq> type player then False else completeDiagonalA,
         if gameBoard game (2 - i) i \<noteq> type player then False else completeDiagonalB))"

definition DidWeWin :: "int \<Rightarrow> int \<Rightarrow> Game \<Rightarrow> Player \<Rightarrow> bool" where
  "DidWeWin row col game player =
     (case fold (DidWeWin_body row col game player) [0, 1, 2] (True, True, True, True) of
        (completeRow, completeCol, completeDiagonalA, completeDiagonalB) \<Rightarrow>
          completeRow \<or> completeCol \<or> completeDiagonalA \<or> completeDiagonalB)"

section \<open>One move: \<open>MakeAMove\<close> (lines 193-239)\<close>

text \<open>
  The array \<open>possibleMoves\<close> after the two nested loops of lines 199-208: the codes
  \<open>row * 3 + col\<close> of the cells that hold \<open>PlayerType::None\<close>, in row-major order.
  \<open>totalPossibleMoves\<close> is its length.
\<close>

definition possibleMoves :: "Game \<Rightarrow> int list" where
  "possibleMoves currentGame =
     [row * 3 + col. row \<leftarrow> [0, 1, 2], col \<leftarrow> [0, 1, 2],
        gameBoard currentGame row col = P_None]"

text \<open>The assignment \<open>gameBoard[row][col] = mark\<close> of line 217.\<close>

definition setCell :: "int \<Rightarrow> int \<Rightarrow> PlayerType \<Rightarrow> Game \<Rightarrow> Game" where
  "setCell row col mark currentGame =
     currentGame\<lparr>gameBoard :=
       (gameBoard currentGame)(row := (gameBoard currentGame row)(col := mark))\<rparr>"

text \<open>
  \<open>MakeAMove\<close>, with \<open>rnd\<close> the value that \<open>currentPlayer->myRand()\<close> returns at line 213.
  The generator is initialised with \<open>Init(0, INT_MAX)\<close> (line 537), so the program only
  ever calls it with \<open>0 \<le> rnd\<close>; the theorems below say so where they need it. \<open>/\<close> and
  \<open>%\<close> of C truncate towards zero: \<open>sdiv\<close> and \<open>smod\<close>. The function returns the game
  state, the player (whose counters it updates) and the game (whose board it updates).
\<close>

definition MakeAMove :: "int \<Rightarrow> Player \<Rightarrow> Game \<Rightarrow> GameState \<times> Player \<times> Game" where
  "MakeAMove rnd currentPlayer currentGame =
     (let moves = possibleMoves currentGame;
          totalPossibleMoves = int (length moves)
      in if totalPossibleMoves \<noteq> 0 then
           let randomMoveIndex = rnd smod totalPossibleMoves;
               row = (moves ! nat randomMoveIndex) sdiv 3;
               col = (moves ! nat randomMoveIndex) smod 3;
               game' = setCell row col (type currentPlayer) currentGame
           in if DidWeWin row col game' currentPlayer
              then (Won, currentPlayer\<lparr>winCount := winCount currentPlayer + 1\<rparr>, game')
              else (StillPlaying, currentPlayer, game')
         else (Draw, currentPlayer\<lparr>drawCount := drawCount currentPlayer + 1\<rparr>, currentGame))"

text \<open>The cell that line 215-216 compute, for the statements about the write.\<close>

definition pickedRow :: "int \<Rightarrow> Game \<Rightarrow> int" where
  "pickedRow rnd currentGame =
     (possibleMoves currentGame ! nat (rnd smod int (length (possibleMoves currentGame)))) sdiv 3"

definition pickedCol :: "int \<Rightarrow> Game \<Rightarrow> int" where
  "pickedCol rnd currentGame =
     (possibleMoves currentGame ! nat (rnd smod int (length (possibleMoves currentGame)))) smod 3"

section \<open>The turn protocol: \<open>PlayGame\<close> (lines 242-305)\<close>

text \<open>
  Where a thread of the program is, with respect to one game of the pool:
  \<^item> \<open>AtScan\<close>: in \<open>TryToPlayEachGame\<close>, before it locks \<open>playerCountMutex\<close> of the game
    (line 355);
  \<^item> \<open>Skipped\<close>: it found the game full and went on (line 360);
  \<^item> \<open>AtJoin\<close>: it incremented \<open>playerCount\<close> and is about to lock \<open>gameMutex\<close> in
    \<open>JoinGame\<close> (line 312);
  \<^item> \<open>WaitPartner\<close>: in the wait of line 323, whose predicate is \<open>playerX != -1\<close>;
  \<^item> \<open>WaitTurn\<close>: in the wait of line 274, which has no predicate;
  \<^item> \<open>Played\<close>: \<open>PlayGame\<close>, then \<open>JoinGame\<close>, has returned;
  \<^item> \<open>Exited\<close>: it called \<open>exit(1)\<close> (lines 250 and 259).

  All the code of \<open>JoinGame\<close> and \<open>PlayGame\<close> runs with \<open>gameMutex\<close> held, and a wait
  on the condition variable is the only place that releases it. So what one thread does
  between two waits is one atomic step for the other threads of the game. Each of the
  functions below is such a step: it returns where the thread stops, whether the thread
  called \<open>gameCondition.notify_all()\<close> on the way, the player and the game.
\<close>

datatype loc = AtScan | Skipped | AtJoin | WaitPartner | WaitTurn | Played | Exited

text \<open>Line 262: \<open>(currentPlayer->type == PlayerType::X) ? PlayerType::O : PlayerType::X\<close>.\<close>

definition otherType :: "PlayerType \<Rightarrow> PlayerType" where
  "otherType t = (if t = P_X then P_O else P_X)"

text \<open>
  From the head of the \<open>while\<close> loop (line 253) to the next wait, return or exit. A thread
  comes here from the entry of \<open>PlayGame\<close> and every time the wait of line 274 returns
  (\<open>continue\<close>). When the loop is over, lines 295-304 count the lost or tied game.
\<close>

definition PlayGame_loop :: "int \<Rightarrow> Player \<Rightarrow> Game \<Rightarrow> loc \<times> bool \<times> Player \<times> Game" where
  "PlayGame_loop rnd currentPlayer currentGame =
     (if currentGameState currentGame = StillPlaying then
        if currentTurn currentGame \<noteq> type currentPlayer then
          (Exited, False, currentPlayer, currentGame)
        else
          let game1 = currentGame\<lparr>currentTurn := otherType (type currentPlayer)\<rparr> in
          (case MakeAMove rnd currentPlayer game1 of (state, player', game2) \<Rightarrow>
             let game3 = game2\<lparr>currentGameState := state\<rparr> in
             (case state of
                StillPlaying \<Rightarrow> (WaitTurn, True, player', game3)
              | Won \<Rightarrow> (Played, True, player', game3)
              | Draw \<Rightarrow> (Played, True, player', game3)))
      else if currentGameState currentGame = Won then
        (Played, False, currentPlayer\<lparr>loseCount := loseCount currentPlayer + 1\<rparr>, currentGame)
      else if currentGameState currentGame = Draw then
        (Played, False, currentPlayer\<lparr>drawCount := drawCount currentPlayer + 1\<rparr>, currentGame)
      else (Played, False, currentPlayer, currentGame))"

text \<open>\<open>PlayGame\<close> from its entry: the check of lines 246-251, then the loop.\<close>

definition PlayGame :: "int \<Rightarrow> Player \<Rightarrow> Game \<Rightarrow> loc \<times> bool \<times> Player \<times> Game" where
  "PlayGame rnd currentPlayer currentGame =
     (if playerO currentGame = - 1 \<or> playerX currentGame = - 1
      then (Exited, False, currentPlayer, currentGame)
      else PlayGame_loop rnd currentPlayer currentGame)"

section \<open>Joining a game: \<open>JoinGame\<close> (lines 309-339)\<close>

text \<open>Lines 336-338, once \<open>PlayGame\<close> has returned: \<open>gamesPlayed++\<close>.\<close>

definition JoinGame_return :: "loc \<times> bool \<times> Player \<times> Game \<Rightarrow> loc \<times> bool \<times> Player \<times> Game" where
  "JoinGame_return res =
     (case res of (l, notify, currentPlayer, currentGame) \<Rightarrow>
        if l = Played
        then (Played, notify, currentPlayer\<lparr>gamesPlayed := gamesPlayed currentPlayer + 1\<rparr>, currentGame)
        else res)"

text \<open>
  The wait of line 323, \<open>gameCondition.wait(gameUniqueLock, pred)\<close>, is
  \<open>while (!pred()) wait(gameUniqueLock)\<close>: the thread goes on to \<open>PlayGame\<close> if
  \<open>playerX != -1\<close> and blocks (again) otherwise. It is evaluated when the thread reaches
  the wait and every time the thread is woken.
\<close>

definition JoinGame_wait :: "int \<Rightarrow> Player \<Rightarrow> Game \<Rightarrow> loc \<times> bool \<times> Player \<times> Game" where
  "JoinGame_wait rnd currentPlayer currentGame =
     (if playerX currentGame \<noteq> - 1
      then JoinGame_return (PlayGame rnd currentPlayer currentGame)
      else (WaitPartner, False, currentPlayer, currentGame))"

definition JoinGame :: "int \<Rightarrow> Player \<Rightarrow> Game \<Rightarrow> loc \<times> bool \<times> Player \<times> Game" where
  "JoinGame rnd currentPlayer currentGame =
     (if playerO currentGame = - 1 then
        JoinGame_wait rnd (currentPlayer\<lparr>type := P_O\<rparr>)
          (currentGame\<lparr>playerO := id_p currentPlayer\<rparr>)
      else
        JoinGame_return
          (PlayGame rnd (currentPlayer\<lparr>type := P_X\<rparr>)
             (currentGame\<lparr>playerX := id_p currentPlayer\<rparr>)))"

text \<open>The thread is woken in the wait of line 274 and goes back to the head of the loop.\<close>

definition PlayGame_woken :: "int \<Rightarrow> Player \<Rightarrow> Game \<Rightarrow> loc \<times> bool \<times> Player \<times> Game" where
  "PlayGame_woken rnd currentPlayer currentGame =
     JoinGame_return (PlayGame_loop rnd currentPlayer currentGame)"

section \<open>Scanning the pool: \<open>TryToPlayEachGame\<close> (lines 342-370)\<close>

text \<open>
  Lines 355-365, under \<open>playerCountMutex\<close>: the game is skipped when \<open>playerCount == 2\<close>
  and joined, with \<open>playerCount++\<close>, otherwise. The boolean tells whether the thread joins.
\<close>

definition claimGame :: "Game \<Rightarrow> bool \<times> Game" where
  "claimGame g =
     (if playerCount g = 2 then (False, g)
      else (True, g\<lparr>playerCount := playerCount g + 1\<rparr>))"

section \<open>The threads of one game\<close>

text \<open>
  One game of the pool with the threads that come to it. Thread \<open>t\<close> runs
  \<open>PlayerThreadEntrypoint(&perPlayerData[t])\<close>; each thread reads and writes its own
  \<open>Player\<close> only. \<open>notified t\<close> holds when \<open>notify_all\<close> was called on the condition
  variable of the game while \<open>t\<close> was waiting on it and \<open>t\<close> has not run since.
  \<open>halted\<close> holds once a thread has called \<open>exit(1)\<close>. \<open>history\<close> is not a variable of
  the program: it lists, in order, every cell of the board that a step changed, with the
  mark written there.
\<close>

record Slot =
  game :: Game
  loc_of :: "nat \<Rightarrow> loc"
  notified :: "nat \<Rightarrow> bool"
  halted :: bool
  history :: "(int \<times> int \<times> PlayerType) list"

text \<open>The cells at which two boards differ, in row-major order, with the new content.\<close>

definition board_diff ::
  "(int \<Rightarrow> int \<Rightarrow> PlayerType) \<Rightarrow> (int \<Rightarrow> int \<Rightarrow> PlayerType) \<Rightarrow> (int \<times> int \<times> PlayerType) list" where
  "board_diff b b' =
     [(row, col, b' row col). row \<leftarrow> [0, 1, 2], col \<leftarrow> [0, 1, 2], b' row col \<noteq> b row col]"

text \<open>What the thread does next, from where it is.\<close>

definition segment :: "loc \<Rightarrow> int \<Rightarrow> Player \<Rightarrow> Game \<Rightarrow> loc \<times> bool \<times> Player \<times> Game" where
  "segment l rnd p g =
     (case l of
        AtScan \<Rightarrow> (case claimGame g of (joins, g') \<Rightarrow>
                    (if joins then AtJoin else Skipped, False, p, g'))
      | AtJoin \<Rightarrow> JoinGame rnd p g
      | WaitPartner \<Rightarrow> JoinGame_wait rnd p g
      | WaitTurn \<Rightarrow> PlayGame_woken rnd p g
      | Skipped \<Rightarrow> (Skipped, False, p, g)
      | Played \<Rightarrow> (Played, False, p, g)
      | Exited \<Rightarrow> (Exited, False, p, g))"

text \<open>
  \<open>gameCondition.notify_all()\<close>: every thread that waits on the condition variable of
  the game (at line 274 or at line 323) is notified.
\<close>

definition notify_all :: "(nat \<Rightarrow> loc) \<Rightarrow> (nat \<Rightarrow> bool) \<Rightarrow> nat \<Rightarrow> bool" where
  "notify_all L N = (\<lambda>u. N u \<or> L u = WaitPartner \<or> L u = WaitTurn)"

text \<open>
  One step of thread \<open>t\<close> on the game, \<open>rnd\<close> being the next number of its generator (a
  natural number: the generator draws from 0 to \<open>INT_MAX\<close>). A waiting thread may take a
  step without having been notified: the C++ standard allows a wait to return spuriously.
  The thread that runs has consumed its own notification. After \<open>exit(1)\<close> nothing runs.
\<close>

definition slot_step :: "nat \<Rightarrow> nat \<Rightarrow> Player \<Rightarrow> Slot \<Rightarrow> Player \<times> Slot" where
  "slot_step t rnd p s =
     (if halted s then (p, s)
      else case segment (loc_of s t) (int rnd) p (game s) of (l, notify, p', g') \<Rightarrow>
        (p', \<lparr>game = g',
              loc_of = (loc_of s)(t := l),
              notified = (if notify then notify_all (loc_of s) (notified s)
                          else notified s)(t := False),
              halted = (l = Exited),
              history = history s @ board_diff (gameBoard (game s)) (gameBoard g')\<rparr>))"

text \<open>A thread can run when it is not waiting, or when it waits and has been notified.\<close>

definition runnable :: "Slot \<Rightarrow> nat \<Rightarrow> bool" where
  "runnable s t \<longleftrightarrow>
     \<not> halted s \<and>
     (loc_of s t = AtScan \<or> loc_of s t = AtJoin \<or>
      ((loc_of s t = WaitPartner \<or> loc_of s t = WaitTurn) \<and> notified s t))"

text \<open>The players of all threads and the game; a schedule is a list of steps.\<close>

record Table =
  players :: "nat \<Rightarrow> Player"
  slot :: Slot

definition step :: "nat \<times> nat \<Rightarrow> Table \<Rightarrow> Table" where
  "step tr T =
     (case tr of (t, rnd) \<Rightarrow>
        case slot_step t rnd (players T t) (slot T) of (p', s') \<Rightarrow>
          \<lparr>players = (players T)(t := p'), slot = s'\<rparr>)"

definition run :: "(nat \<times> nat) list \<Rightarrow> Table \<Rightarrow> Table" where
  "run schedule T = fold step schedule T"

section \<open>\<open>main\<close>: arguments, initialisation and the reset between rounds (lines 449-600)\<close>



text \<open>Lines 515-524, for the game of index \<open>i\<close>, and lines 527-538, for the player of index \<open>i\<close>.\<close>

definition initGame :: "int \<Rightarrow> Game" where
  "initGame i =
     \<lparr>playerCount = 0, gameNumber = i + 1, currentTurn = P_X,
      currentGameState = StillPlaying, playerX = - 1, playerO = - 1,
      gameBoard = (\<lambda>row col. P_None)\<rparr>"

definition initPlayer :: "int \<Rightarrow> Player" where
  "initPlayer i =
     \<lparr>id_p = i, gamesPlayed = 0, winCount = 0, loseCount = 0, drawCount = 0, type = P_None\<rparr>"

text \<open>Lines 510-512.\<close>

definition initPlayerPool :: PlayerPool where
  "initPlayerPool = \<lparr>totalPlayerCount = 0, gunFlag = False\<rparr>"

text \<open>Lines 576-583 and 585-591: what the end of a round resets in a game and in a player.\<close>

definition resetGame :: "Game \<Rightarrow> Game" where
  "resetGame g =
     g\<lparr>playerO := - 1, playerX := - 1, currentTurn := P_X,
       currentGameState := StillPlaying, playerCount := 0,
       gameBoard := (\<lambda>row col. P_None)\<rparr>"

definition resetPlayer :: "Player \<Rightarrow> Player" where
  "resetPlayer p =
     p\<lparr>gamesPlayed := 0, winCount := 0, loseCount := 0, drawCount := 0, type := P_None\<rparr>"

text \<open>
  What \<open>main\<close> owns: the pool of players, the array of games and the array of players.
  \<open>main_init\<close> is lines 500-538 for \<open>totalPlayerCount\<close> players and \<open>totalGameCount\<close> games.
\<close>

record Program =
  poolOfPlayers :: PlayerPool
  perGameData :: "Game list"
  perPlayerData :: "Player list"

definition main_init :: "int \<Rightarrow> int \<Rightarrow> Program" where
  "main_init nPlayers nGames =
     \<lparr>poolOfPlayers = initPlayerPool,
      perGameData = map (\<lambda>i. initGame (int i)) [0 ..< nat nGames],
      perPlayerData = map (\<lambda>i. initPlayer (int i)) [0 ..< nat nPlayers]\<rparr>"

text \<open>
  What a round does to the pool of players: a thread increments \<open>totalPlayerCount\<close> when
  it starts (lines 378-380) and decrements it when it has scanned the pool of games
  (lines 394-396), and \<open>main\<close> fires the starting gun, \<open>gunFlag = true\<close>, once the count
  has reached the number of players (lines 550-554). A thread blocks in the wait of lines
  384-385 exactly while \<open>gunFlag\<close> is false.
\<close>

datatype pool_event = Enter | Leave | Gun

definition pool_step :: "pool_event \<Rightarrow> PlayerPool \<Rightarrow> PlayerPool" where
  "pool_step ev pool =
     (case ev of
        Enter \<Rightarrow> pool\<lparr>totalPlayerCount := totalPlayerCount pool + 1\<rparr>
      | Leave \<Rightarrow> pool\<lparr>totalPlayerCount := totalPlayerCount pool - 1\<rparr>
      | Gun \<Rightarrow> pool\<lparr>gunFlag := True\<rparr>)"

definition blocksAtStartingGun :: "PlayerPool \<Rightarrow> bool" where
  "blocksAtStartingGun pool \<longleftrightarrow> \<not> gunFlag pool"

text \<open>
  The end of a round, lines 576-591: every game and every player is reset; no statement
  of the loop writes to the pool of players. \<open>main_round\<close> is one pass of the loop
  \<open>while (playAgain)\<close>: the threads leave the pool of players after \<open>events\<close> and the games
  and players as \<open>games'\<close> and \<open>players'\<close>, then comes the reset.
\<close>

definition main_reset :: "Program \<Rightarrow> Program" where
  "main_reset P =
     P\<lparr>perGameData := map resetGame (perGameData P),
       perPlayerData := map resetPlayer (perPlayerData P)\<rparr>"

definition main_round :: "pool_event list \<Rightarrow> Game list \<Rightarrow> Player list \<Rightarrow> Program \<Rightarrow> Program" where
  "main_round events games' players' P =
     main_reset \<lparr>poolOfPlayers = fold pool_step events (poolOfPlayers P),
                 perGameData = games', perPlayerData = players'\<rparr>"

text \<open>A game as \<open>main\<close> leaves it before the threads start: every thread is still to come.\<close>

definition initSlot :: "Game \<Rightarrow> Slot" where
  "initSlot g =
     \<lparr>game = g, loc_of = (\<lambda>t. AtScan), notified = (\<lambda>t. False), halted = False, history = []\<rparr>"

section \<open>The pool of games: the loop of \<open>TryToPlayEachGame\<close> (lines 352-369)\<close>

text \<open>
  All the games of a round with the players of the threads; \<open>cursor t\<close> is the loop
  variable \<open>i\<close> of thread \<open>t\<close>. A step of thread \<open>t\<close> is a step on game \<open>i\<close> while
  \<open>i < totalGameCount\<close>, and \<open>i\<close> is incremented when the thread has skipped the game or
  has returned from \<open>JoinGame\<close>. When the loop is over the thread does nothing more here.
  After \<open>exit(1)\<close> in any game nothing runs.
\<close>

record Round =
  gamePool :: "Slot list"
  roundPlayers :: "nat \<Rightarrow> Player"
  cursor :: "nat \<Rightarrow> nat"




section \<open>A round: the player threads and the starting gun (lines 373-398 and 542-592)\<close>

text \<open>
  Where a player thread is in \<open>PlayerThreadEntrypoint\<close>: started by \<open>main\<close> and not yet run;
  counted in \<open>totalPlayerCount\<close> and at the wait for the starting gun (lines 383-385); in
  \<open>TryToPlayEachGame\<close>; returned, its count taken back. Where \<open>main\<close> is in a pass of its
  loop: at the wait for all threads to be counted (line 550), about to fire the starting
  gun (lines 552-558), at the wait for the count to be 0 again (line 561), past it.
\<close>

datatype entry_loc = NotStarted | AtStartingGun | Scanning | Finished

datatype main_loc = WaitAllReady | FireGun | WaitAllDone | RoundOver

record RoundState =
  playerPool :: PlayerPool
  workerAt :: "entry_loc list"
  mainAt :: main_loc
  scanned :: Round



text \<open>
  A schedule of a round is a list of events: \<open>main\<close> runs, or thread \<open>t\<close> runs and its
  generator returns \<open>rnd\<close> if asked. After \<open>exit(1)\<close> in a game nothing runs.
\<close>

datatype round_event = MainRuns | PlayerRuns nat nat





text \<open>
  An event can run when no game has called \<open>exit(1)\<close> and its thread is not in a wait whose
  predicate is false and has not returned. (A thread in the scan can run: inside a game it
  may be in a wait of the game, where a step is a wake-up.)
\<close>

definition canRun :: "RoundState \<Rightarrow> round_event \<Rightarrow> bool" where
  "canRun S e \<longleftrightarrow>
     \<not> list_ex halted (gamePool (scanned S)) \<and>
     (case e of
        MainRuns \<Rightarrow>
          (case mainAt S of
             WaitAllReady \<Rightarrow> totalPlayerCount (playerPool S) = int (length (workerAt S))
           | FireGun \<Rightarrow> True
           | WaitAllDone \<Rightarrow> totalPlayerCount (playerPool S) = 0
           | RoundOver \<Rightarrow> False)
      | PlayerRuns t rnd \<Rightarrow>
          t < length (workerAt S) \<and>
          (case workerAt S ! t of
             NotStarted \<Rightarrow> True
           | AtStartingGun \<Rightarrow> \<not> blocksAtStartingGun (playerPool S)
           | Scanning \<Rightarrow> True
           | Finished \<Rightarrow> False))"






section \<open>Observations and invariants of a game\<close>

text \<open>
  A thread is in the game once its claim has succeeded (it has left \<open>AtScan\<close> for
  \<open>AtJoin\<close>), and it waits when it is blocked on the condition variable of the game.
\<close>

definition in_game :: "loc \<Rightarrow> bool" where
  "in_game l \<longleftrightarrow> l \<noteq> AtScan \<and> l \<noteq> Skipped"

definition waiting :: "loc \<Rightarrow> bool" where
  "waiting l \<longleftrightarrow> l = WaitPartner \<or> l = WaitTurn"

text \<open>
  The marks of a history, and the role that places the mark of index \<open>k\<close> when the roles
  alternate from X: X for an even \<open>k\<close>, O for an odd one.
\<close>

definition marks :: "(int \<times> int \<times> PlayerType) list \<Rightarrow> PlayerType list" where
  "marks h = map (\<lambda>(row, col, mark). mark) h"

definition roleAt :: "nat \<Rightarrow> PlayerType" where
  "roleAt k = (if even k then P_X else P_O)"

text \<open>The game \<open>g\<close> and the players \<open>ps\<close> before any thread has come to the game.\<close>

definition initTable :: "(nat \<Rightarrow> Player) \<Rightarrow> Game \<Rightarrow> Table" where
  "initTable ps g = \<lparr>players = ps, slot = initSlot g\<rparr>"

text \<open>
  The turn and the history agree: the marks alternate from X, the turn is the role of the
  next mark (of the one after it once a turn has found the board full, since that turn
  flipped \<open>currentTurn\<close> and placed no mark), and a won game has a mark.
\<close>

definition game_ok :: "Game \<Rightarrow> (int \<times> int \<times> PlayerType) list \<Rightarrow> bool" where
  "game_ok g h \<longleftrightarrow>
     (\<forall>k < length h. marks h ! k = roleAt k)
     \<and> currentTurn g = roleAt (length h + (if currentGameState g = Draw then 1 else 0))
     \<and> (currentGameState g = Won \<longrightarrow> h \<noteq> [])"

text \<open>The occupancy is the number of threads in the game, and it is at most 2.\<close>

definition count_inv :: "Table \<Rightarrow> bool" where
  "count_inv T \<longleftrightarrow>
     0 \<le> playerCount (game (slot T)) \<and> playerCount (game (slot T)) \<le> 2
     \<and> finite {t. in_game (loc_of (slot T) t)}
     \<and> int (card {t. in_game (loc_of (slot T) t)}) = playerCount (game (slot T))"

text \<open>
  What holds of every thread whatever the phase of the game: thread \<open>t\<close> runs the player
  of \<open>id\<close> \<open>t\<close> (line 529), a thread that has not locked \<open>gameMutex\<close> yet has the player
  \<open>ps0 t\<close> it came with, and a thread has returned only from a game that is over.
\<close>

definition base_inv :: "(nat \<Rightarrow> Player) \<Rightarrow> Table \<Rightarrow> bool" where
  "base_inv ps0 T \<longleftrightarrow>
     (\<forall>t. id_p (players T t) = int t)
     \<and> count_inv T
     \<and> game_ok (game (slot T)) (history (slot T))
     \<and> (\<forall>t. loc_of (slot T) t = AtScan \<or> loc_of (slot T) t = Skipped \<or> loc_of (slot T) t = AtJoin
            \<longrightarrow> players T t = ps0 t)
     \<and> (\<forall>t. loc_of (slot T) t = Played \<longrightarrow> currentGameState (game (slot T)) \<noteq> StillPlaying)"

text \<open>
  The counters of a player \<open>p\<close> against the player \<open>p0\<close> it was when it came to the game:
  its role, and by how much \<open>gamesPlayed\<close>, \<open>winCount\<close>, \<open>loseCount\<close> and \<open>drawCount\<close>
  have grown.
\<close>

definition tally :: "Player \<Rightarrow> Player \<Rightarrow> PlayerType \<Rightarrow> int \<Rightarrow> int \<Rightarrow> int \<Rightarrow> int \<Rightarrow> bool" where
  "tally p0 p role played won lost tied \<longleftrightarrow>
     type p = role \<and> gamesPlayed p = gamesPlayed p0 + played \<and> winCount p = winCount p0 + won
     \<and> loseCount p = loseCount p0 + lost \<and> drawCount p = drawCount p0 + tied"

text \<open>
  The two players of a game, once both have joined: \<open>m\<close>, with role \<open>rm\<close>, made the last
  move (or is O, before the first move) and \<open>w\<close>, with role \<open>rw\<close>, is the one
  \<open>currentTurn\<close> points at. While the game goes on both wait, \<open>w\<close> notified; when it is
  over \<open>m\<close> has returned with its win or draw counted, and \<open>w\<close> either still waits,
  notified, or has returned with its loss or draw counted.
\<close>

definition pair_inv ::
  "(nat \<Rightarrow> Player) \<Rightarrow> Table \<Rightarrow> nat \<Rightarrow> PlayerType \<Rightarrow> nat \<Rightarrow> PlayerType \<Rightarrow> bool" where
  "pair_inv ps0 T m rm w rw \<longleftrightarrow>
     (case currentGameState (game (slot T)) of
        StillPlaying \<Rightarrow>
          loc_of (slot T) m = WaitTurn \<and> tally (ps0 m) (players T m) rm 0 0 0 0
          \<and> waiting (loc_of (slot T) w) \<and> notified (slot T) w
          \<and> tally (ps0 w) (players T w) rw 0 0 0 0
      | Won \<Rightarrow>
          loc_of (slot T) m = Played \<and> tally (ps0 m) (players T m) rm 1 1 0 0
          \<and> (if loc_of (slot T) w = Played then tally (ps0 w) (players T w) rw 1 0 1 0
              else waiting (loc_of (slot T) w) \<and> notified (slot T) w
                   \<and> tally (ps0 w) (players T w) rw 0 0 0 0)
      | Draw \<Rightarrow>
          loc_of (slot T) m = Played \<and> tally (ps0 m) (players T m) rm 1 0 0 1
          \<and> (if loc_of (slot T) w = Played then tally (ps0 w) (players T w) rw 1 0 0 1
              else waiting (loc_of (slot T) w) \<and> notified (slot T) w
                   \<and> tally (ps0 w) (players T w) rw 0 0 0 0))"

text \<open>
  The three phases of a game while no thread has called \<open>exit(1)\<close>: nobody has joined
  (\<open>playerO = -1\<close>); O has joined and waits for a partner, not notified; both have joined.
  In the first two the board is empty and nothing has been played.
\<close>

definition phase_inv :: "(nat \<Rightarrow> Player) \<Rightarrow> Table \<Rightarrow> bool" where
  "phase_inv ps0 T \<longleftrightarrow>
     (let g = game (slot T); L = loc_of (slot T);
          tO = nat (playerO g); tX = nat (playerX g)
      in if playerO g = - 1 then
           playerX g = - 1 \<and> (\<forall>t. \<not> in_game (L t) \<or> L t = AtJoin)
           \<and> currentGameState g = StillPlaying \<and> history (slot T) = []
           \<and> gameBoard g = (\<lambda>row col. P_None)
         else if playerX g = - 1 then
           0 \<le> playerO g \<and> L tO = WaitPartner \<and> tally (ps0 tO) (players T tO) P_O 0 0 0 0
           \<and> (\<forall>t. t \<noteq> tO \<longrightarrow> \<not> in_game (L t) \<or> L t = AtJoin)
           \<and> currentGameState g = StillPlaying \<and> history (slot T) = []
           \<and> gameBoard g = (\<lambda>row col. P_None) \<and> \<not> notified (slot T) tO
         else
           0 \<le> playerO g \<and> 0 \<le> playerX g \<and> tO \<noteq> tX \<and> playerCount g = 2
           \<and> (\<forall>t. t \<noteq> tO \<and> t \<noteq> tX \<longrightarrow> \<not> in_game (L t))
           \<and> (if currentTurn g = P_X then pair_inv ps0 T tO P_O tX P_X
               else pair_inv ps0 T tX P_X tO P_O))"

definition table_inv :: "(nat \<Rightarrow> Player) \<Rightarrow> Table \<Rightarrow> bool" where
  "table_inv ps0 T \<longleftrightarrow> base_inv ps0 T \<and> (halted (slot T) \<or> phase_inv ps0 T)"

section \<open>Sample inputs\<close>

text \<open>A player of index \<open>i\<close> that has joined a game with a mark, and the game of index 0 with
  some cells of its board written in turn: the concrete inputs of the checks below.\<close>

definition playerAs :: "int \<Rightarrow> PlayerType \<Rightarrow> Player" where
  "playerAs i mark = (initPlayer i)\<lparr>type := mark\<rparr>"

definition boardOf :: "(int \<times> int \<times> PlayerType) list \<Rightarrow> Game" where
  "boardOf cells = fold (\<lambda>(row, col, mark). setCell row col mark) cells (initGame 0)"

text \<open>
  Thread \<open>t\<close> comes with the player of index \<open>t\<close> as \<open>main\<close> initialises it. \<open>report\<close>
  collects what the checks below read of a table: the game, the marks placed, and the
  threads 0, 1 and 2 with their players.
\<close>

definition roster :: "nat \<Rightarrow> Player" where
  "roster t = initPlayer (int t)"

definition report ::
  "Table \<Rightarrow> (GameState \<times> PlayerType \<times> int \<times> int \<times> int) \<times> PlayerType list \<times> bool
            \<times> (loc \<times> bool \<times> PlayerType \<times> int \<times> int \<times> int \<times> int) list" where
  "report T =
     ((currentGameState (game (slot T)), currentTurn (game (slot T)),
       playerCount (game (slot T)), playerO (game (slot T)), playerX (game (slot T))),
      marks (history (slot T)), halted (slot T),
      map (\<lambda>t. (loc_of (slot T) t, notified (slot T) t, type (players T t),
                 gamesPlayed (players T t), winCount (players T t),
                 loseCount (players T t), drawCount (players T t))) [0, 1, 2])"

text \<open>
  Two schedules of a whole game, each step a thread and the number its generator returns.
  In \<open>wonGame\<close> three threads scan the game, threads 0 and 1 join it, and X (thread 1)
  fills row 0 with its third mark. In \<open>drawnGame\<close> threads 0 and 1 fill the board without
  a line, thread 0 finds it full and thread 1 is woken last.
\<close>

definition wonGame :: "(nat \<times> nat) list" where
  "wonGame = [(0, 0), (1, 0), (2, 0), (0, 0), (1, 0), (0, 2), (1, 0), (0, 1), (1, 0), (0, 0)]"

definition drawnGame :: "(nat \<times> nat) list" where
  "drawnGame = [(0, 0), (1, 0), (0, 0), (1, 0), (0, 0), (1, 0), (0, 1), (1, 0), (0, 0), (1, 1),
                (0, 0), (1, 0), (0, 0), (1, 0)]"

text \<open>
  Three threads that scan the game one after the other, and a game two moves from its end:
  X holds (0, 0) and (0, 1), O holds (1, 0) and (1, 1), and it is the turn of X.
\<close>

definition threeScans :: "(nat \<times> nat) list" where
  "threeScans = [(0, 0), (1, 0), (2, 0)]"

definition nearWin :: Game where
  "nearWin = boardOf [(0, 0, P_X), (1, 0, P_O), (0, 1, P_X), (1, 1, P_O)]"

text \<open>
  Prefixes of a game: two threads have claimed the game; one of them has joined; the board
  is full (the first twelve steps of \<open>drawnGame\<close>).
\<close>

definition twoClaims :: "(nat \<times> nat) list" where
  "twoClaims = [(0, 0), (1, 0)]"

definition oneJoined :: "(nat \<times> nat) list" where
  "oneJoined = [(0, 0), (1, 0), (0, 0)]"

definition boardFull :: "(nat \<times> nat) list" where
  "boardFull = [(0, 0), (1, 0), (0, 0), (1, 0), (0, 0), (1, 0), (0, 1), (1, 0), (0, 0), (1, 1),
                (0, 0), (1, 0)]"

text \<open>
  A first pass of the loop of \<open>main\<close> for two players and one game: both threads enter the
  pool of players, \<open>main\<close> fires the starting gun, the game is played as in \<open>wonGame\<close>, both
  threads leave, and the reset of lines 576-591 ends the pass.
\<close>

definition firstRound :: Program where
  "firstRound =
     (let T = run wonGame (initTable roster (initGame 0)) in
        main_round [Enter, Enter, Gun, Leave, Leave]
          [game (slot T)] [players T 0, players T 1] (main_init 2 1))"




section \<open>Facts about one move\<close>

lemma smod_nonneg_range:
  fixes rnd n :: int
  assumes "0 \<le> rnd" "0 < n"
  shows "0 \<le> rnd smod n \<and> rnd smod n < n"
  using assms by (simp add: signed_modulo_int_def sgn_if)

lemma cell_code:
  fixes row col :: int
  assumes "row \<in> {0, 1, 2}" "col \<in> {0, 1, 2}"
  shows "(row * 3 + col) sdiv 3 = row \<and> (row * 3 + col) smod 3 = col"
  using assms by (elim insertE emptyE; simp add: signed_divide_int_def signed_modulo_int_def)

lemma possibleMoves_iff:
  "m \<in> set (possibleMoves g) \<longleftrightarrow>
     (\<exists>row \<in> {0, 1, 2}. \<exists>col \<in> {0, 1, 2}. m = row * 3 + col \<and> gameBoard g row col = P_None)"
  unfolding possibleMoves_def by (simp; blast)

lemma possibleMoves_member:
  assumes "m \<in> set (possibleMoves g)"
  shows "m sdiv 3 \<in> {0, 1, 2} \<and> m smod 3 \<in> {0, 1, 2}
         \<and> gameBoard g (m sdiv 3) (m smod 3) = P_None"
proof -
  from assms obtain row col where
    rc: "m = row * 3 + col" "row \<in> {0, 1, 2}" "col \<in> {0, 1, 2}" "gameBoard g row col = P_None"
    unfolding possibleMoves_iff by blast
  from cell_code [OF rc(2) rc(3)] rc show ?thesis by simp
qed

lemma possibleMoves_empty:
  "possibleMoves g = [] \<longleftrightarrow>
     (\<forall>row \<in> {0, 1, 2}. \<forall>col \<in> {0, 1, 2}. gameBoard g row col \<noteq> P_None)"
  unfolding possibleMoves_def by auto

lemma picked_cell:
  assumes "0 \<le> rnd" "possibleMoves g \<noteq> []"
  shows "pickedRow rnd g \<in> {0, 1, 2} \<and> pickedCol rnd g \<in> {0, 1, 2}
         \<and> gameBoard g (pickedRow rnd g) (pickedCol rnd g) = P_None"
proof -
  let ?n = "int (length (possibleMoves g))"
  have "0 < ?n" using assms(2) by simp
  from smod_nonneg_range [OF assms(1) this]
  have "nat (rnd smod ?n) < length (possibleMoves g)" by linarith
  then have "possibleMoves g ! nat (rnd smod ?n) \<in> set (possibleMoves g)" by (rule nth_mem)
  from possibleMoves_member [OF this] show ?thesis
    unfolding pickedRow_def pickedCol_def .
qed

lemma MakeAMove_full:
  assumes "possibleMoves g = []"
  shows "MakeAMove rnd p g = (Draw, p\<lparr>drawCount := drawCount p + 1\<rparr>, g)"
  using assms by (simp add: MakeAMove_def)

lemma MakeAMove_open:
  assumes "possibleMoves g \<noteq> []"
  shows "MakeAMove rnd p g =
           (if DidWeWin (pickedRow rnd g) (pickedCol rnd g)
                 (setCell (pickedRow rnd g) (pickedCol rnd g) (type p) g) p
            then (Won, p\<lparr>winCount := winCount p + 1\<rparr>,
                  setCell (pickedRow rnd g) (pickedCol rnd g) (type p) g)
            else (StillPlaying, p, setCell (pickedRow rnd g) (pickedCol rnd g) (type p) g))"
  using assms by (simp add: MakeAMove_def pickedRow_def pickedCol_def Let_def)

lemma board_diff_same: "board_diff b b = []"
  by (simp add: board_diff_def)

lemma board_diff_setCell:
  assumes "row \<in> {0, 1, 2}" "col \<in> {0, 1, 2}" "gameBoard g row col \<noteq> mark"
  shows "board_diff (gameBoard g) (gameBoard (setCell row col mark g)) = [(row, col, mark)]"
  using assms by (elim insertE emptyE; simp add: board_diff_def setCell_def)

section \<open>Win detection\<close>

lemma DidWeWin_iff:
  "DidWeWin row col g p \<longleftrightarrow>
     (gameBoard g row 0 = type p \<and> gameBoard g row 1 = type p
        \<and> gameBoard g row 2 = type p)
   \<or> (gameBoard g 0 col = type p \<and> gameBoard g 1 col = type p
        \<and> gameBoard g 2 col = type p)
   \<or> (gameBoard g 0 0 = type p \<and> gameBoard g 1 1 = type p
        \<and> gameBoard g 2 2 = type p)
   \<or> (gameBoard g 2 0 = type p \<and> gameBoard g 1 1 = type p
        \<and> gameBoard g 0 2 = type p)"
  by (auto simp add: DidWeWin_def DidWeWin_body_def)

lemma setCell_other:
  "(row', col') \<noteq> (row, col) \<Longrightarrow>
     gameBoard (setCell row col mark g) row' col' = gameBoard g row' col'"
  by (auto simp add: setCell_def)

lemma setCell_same: "gameBoard (setCell row col mark g) row col = mark"
  by (simp add: setCell_def)

lemma board_diff_length_setCell:
  "length (board_diff (gameBoard g) (gameBoard (setCell row col mark g))) \<le> 1"
proof (cases "row \<in> {0, 1, 2} \<and> col \<in> {0, 1, 2} \<and> gameBoard g row col \<noteq> mark")
  case True
  then show ?thesis by (simp add: board_diff_setCell)
next
  case False
  have "gameBoard (setCell row col mark g) r c = gameBoard g r c"
    if "r \<in> {0, 1, 2}" "c \<in> {0, 1, 2}" for r c
    using False that by (cases "(r, c) = (row, col)") (auto simp add: setCell_def)
  then show ?thesis by (simp add: board_diff_def)
qed

lemma sample_moves: "possibleMoves (boardOf [(0, 0, P_X), (1, 1, P_O)]) = [1, 2, 3, 5, 6, 7, 8]"
  by (simp add: possibleMoves_def boardOf_def setCell_def initGame_def)

section \<open>The invariants hold along every schedule\<close>

lemma roleAt_simps [simp]:
  "roleAt 0 = P_X" "roleAt (Suc k) = otherType (roleAt k)" "roleAt k \<noteq> P_None"
  by (simp_all add: roleAt_def otherType_def)

lemma MakeAMove_summary:
  assumes "0 \<le> rnd" and "type p \<noteq> P_None" and "MakeAMove rnd p g = (st, p2, g2)"
  shows "playerCount g2 = playerCount g \<and> gameNumber g2 = gameNumber g
       \<and> currentTurn g2 = currentTurn g \<and> currentGameState g2 = currentGameState g
       \<and> playerX g2 = playerX g \<and> playerO g2 = playerO g
       \<and> id_p p2 = id_p p \<and> type p2 = type p \<and> gamesPlayed p2 = gamesPlayed p
       \<and> loseCount p2 = loseCount p
       \<and> winCount p2 = winCount p + (if st = Won then 1 else 0)
       \<and> drawCount p2 = drawCount p + (if st = Draw then 1 else 0)
       \<and> board_diff (gameBoard g) (gameBoard g2)
           = (if st = Draw then [] else [(pickedRow rnd g, pickedCol rnd g, type p)])"
proof (cases "possibleMoves g = []")
  case True
  then show ?thesis using assms(3) by (auto simp add: MakeAMove_full board_diff_same)
next
  case False
  have cell: "pickedRow rnd g \<in> {0, 1, 2}" "pickedCol rnd g \<in> {0, 1, 2}"
    "gameBoard g (pickedRow rnd g) (pickedCol rnd g) \<noteq> type p"
    using picked_cell [OF assms(1) False] assms(2) by simp_all
  have g2: "g2 = setCell (pickedRow rnd g) (pickedCol rnd g) (type p) g"
    using assms(3) False by (auto simp add: MakeAMove_open split: if_splits)
  have d: "board_diff (gameBoard g) (gameBoard g2) = [(pickedRow rnd g, pickedCol rnd g, type p)]"
    unfolding g2 by (rule board_diff_setCell [OF cell])
  have st: "st \<noteq> Draw" using assms(3) False by (auto simp add: MakeAMove_open split: if_splits)
  have f: "playerCount g2 = playerCount g" "gameNumber g2 = gameNumber g"
    "currentTurn g2 = currentTurn g" "currentGameState g2 = currentGameState g"
    "playerX g2 = playerX g" "playerO g2 = playerO g"
    unfolding g2 by (simp_all add: setCell_def)
  have p: "id_p p2 = id_p p" "type p2 = type p" "gamesPlayed p2 = gamesPlayed p"
    "loseCount p2 = loseCount p" "winCount p2 = winCount p + (if st = Won then 1 else 0)"
    "drawCount p2 = drawCount p + (if st = Draw then 1 else 0)"
    using assms(3) False by (auto simp add: MakeAMove_open split: if_splits)
  show ?thesis using d st f p by simp
qed

lemma PlayGame_woken_turn:
  assumes "currentGameState g = StillPlaying" and "currentTurn g = type p"
    and "MakeAMove rnd p (g\<lparr>currentTurn := otherType (type p)\<rparr>) = (st, p2, g2)"
  shows "PlayGame_woken rnd p g =
           (if st = StillPlaying then WaitTurn else Played, True,
            if st = StillPlaying then p2 else p2\<lparr>gamesPlayed := gamesPlayed p2 + 1\<rparr>,
            g2\<lparr>currentGameState := st\<rparr>)"
  using assms
  by (cases st) (simp_all add: PlayGame_woken_def PlayGame_loop_def JoinGame_return_def)

lemma PlayGame_woken_wrong:
  assumes "currentGameState g = StillPlaying" and "currentTurn g \<noteq> type p"
  shows "PlayGame_woken rnd p g = (Exited, False, p, g)"
  using assms by (simp add: PlayGame_woken_def PlayGame_loop_def JoinGame_return_def)

lemma PlayGame_woken_over:
  assumes "currentGameState g \<noteq> StillPlaying"
  shows "PlayGame_woken rnd p g =
           (Played, False,
            if currentGameState g = Won
            then p\<lparr>loseCount := loseCount p + 1, gamesPlayed := gamesPlayed p + 1\<rparr>
            else p\<lparr>drawCount := drawCount p + 1, gamesPlayed := gamesPlayed p + 1\<rparr>, g)"
  using assms
  by (cases "currentGameState g")
     (simp_all add: PlayGame_woken_def PlayGame_loop_def JoinGame_return_def)

lemma JoinGame_wait_eq:
  "JoinGame_wait rnd p g =
     (if playerX g = - 1 then (WaitPartner, False, p, g)
      else if playerO g = - 1 then (Exited, False, p, g)
      else PlayGame_woken rnd p g)"
  by (simp add: JoinGame_wait_def PlayGame_def PlayGame_woken_def JoinGame_return_def)

lemma JoinGame_eq:
  "JoinGame rnd p g =
     (if playerO g = - 1 then
        if playerX g = - 1 then (WaitPartner, False, p\<lparr>type := P_O\<rparr>, g\<lparr>playerO := id_p p\<rparr>)
        else if id_p p = - 1 then (Exited, False, p\<lparr>type := P_O\<rparr>, g\<lparr>playerO := id_p p\<rparr>)
        else PlayGame_woken rnd (p\<lparr>type := P_O\<rparr>) (g\<lparr>playerO := id_p p\<rparr>)
      else if id_p p = - 1 then (Exited, False, p\<lparr>type := P_X\<rparr>, g\<lparr>playerX := id_p p\<rparr>)
      else PlayGame_woken rnd (p\<lparr>type := P_X\<rparr>) (g\<lparr>playerX := id_p p\<rparr>))"
  by (simp add: JoinGame_def JoinGame_wait_def PlayGame_def PlayGame_woken_def JoinGame_return_def)

lemma MakeAMove_frame:
  assumes "MakeAMove rnd p g = (st, p2, g2)"
  shows "playerCount g2 = playerCount g \<and> gameNumber g2 = gameNumber g
       \<and> currentTurn g2 = currentTurn g \<and> currentGameState g2 = currentGameState g
       \<and> playerX g2 = playerX g \<and> playerO g2 = playerO g
       \<and> id_p p2 = id_p p \<and> type p2 = type p \<and> gamesPlayed p2 = gamesPlayed p
       \<and> loseCount p2 = loseCount p
       \<and> winCount p2 = winCount p + (if st = Won then 1 else 0)
       \<and> drawCount p2 = drawCount p + (if st = Draw then 1 else 0)"
proof (cases "possibleMoves g = []")
  case True
  then show ?thesis using assms by (auto simp add: MakeAMove_full)
next
  case False
  then show ?thesis using assms
    by (auto simp add: MakeAMove_open setCell_def split: if_splits)
qed

lemma game_ok_turn:
  assumes "0 \<le> rnd" and ok: "game_ok g h"
    and sp: "currentGameState g = StillPlaying" and turn: "currentTurn g = type p"
    and mv: "MakeAMove rnd p (g\<lparr>currentTurn := otherType (type p)\<rparr>) = (st, p2, g2)"
  shows "game_ok (g2\<lparr>currentGameState := st\<rparr>)
           (h @ board_diff (gameBoard g) (gameBoard (g2\<lparr>currentGameState := st\<rparr>)))"
proof -
  let ?g1 = "g\<lparr>currentTurn := otherType (type p)\<rparr>"
  have tp: "type p = roleAt (length h)" using ok sp turn by (simp add: game_ok_def)
  then have nn: "type p \<noteq> P_None" by simp
  note s = MakeAMove_summary [OF assms(1) nn mv]
  have d: "board_diff (gameBoard g) (gameBoard g2)
            = (if st = Draw then [] else [(pickedRow rnd ?g1, pickedCol rnd ?g1, type p)])"
    using s by simp
  have t2: "currentTurn g2 = otherType (type p)" using s by simp
  have old: "\<forall>k < length h. marks h ! k = roleAt k" using ok by (simp add: game_ok_def)
  show ?thesis
  proof (cases "st = Draw")
    case True
    then show ?thesis using d t2 tp old by (simp add: game_ok_def)
  next
    case False
    have "marks (h @ [(pickedRow rnd ?g1, pickedCol rnd ?g1, type p)]) ! k = roleAt k"
      if "k < Suc (length h)" for k
    proof (cases "k < length h")
      case True
      then show ?thesis using old by (simp add: marks_def nth_append)
    next
      case False
      then have "k = length h" using that by simp
      then show ?thesis using tp by (simp add: marks_def nth_append)
    qed
    then show ?thesis using False d t2 tp by (simp add: game_ok_def)
  qed
qed

lemma PlayGame_woken_summary:
  assumes "PlayGame_woken (int rnd) p g = (l', n, p', g')"
  shows "id_p p' = id_p p \<and> type p' = type p
       \<and> playerCount g' = playerCount g \<and> playerO g' = playerO g \<and> playerX g' = playerX g
       \<and> (l' = WaitTurn \<or> l' = Played \<or> l' = Exited)
       \<and> (l' = Played \<longrightarrow> currentGameState g' \<noteq> StillPlaying)
       \<and> (currentGameState g \<noteq> StillPlaying \<longrightarrow> g' = g)
       \<and> (game_ok g h \<longrightarrow> game_ok g' (h @ board_diff (gameBoard g) (gameBoard g')))"
proof (cases "currentGameState g = StillPlaying")
  case False
  then show ?thesis using assms
    by (auto simp add: PlayGame_woken_over board_diff_same split: if_splits)
next
  case sp: True
  show ?thesis
  proof (cases "currentTurn g = type p")
    case False
    then show ?thesis using assms sp by (auto simp add: PlayGame_woken_wrong board_diff_same)
  next
    case turn: True
    obtain st p2 g2 where mv: "MakeAMove (int rnd) p (g\<lparr>currentTurn := otherType (type p)\<rparr>) = (st, p2, g2)"
      by (cases "MakeAMove (int rnd) p (g\<lparr>currentTurn := otherType (type p)\<rparr>)")
    note f = MakeAMove_frame [OF mv]
    have r: "l' = (if st = StillPlaying then WaitTurn else Played)"
      "p' = (if st = StillPlaying then p2 else p2\<lparr>gamesPlayed := gamesPlayed p2 + 1\<rparr>)"
      "g' = g2\<lparr>currentGameState := st\<rparr>"
      using assms unfolding PlayGame_woken_turn [OF sp turn mv] by simp_all
    have ok: "game_ok g' (h @ board_diff (gameBoard g) (gameBoard g'))" if "game_ok g h"
      unfolding r(3) by (rule game_ok_turn [OF _ that sp turn mv]) simp
    show ?thesis using f r(1) r(2) ok sp unfolding r(3) by simp
  qed
qed

lemma segment_summary:
  assumes "segment l (int rnd) p g = (l', n, p', g')"
  shows "id_p p' = id_p p
       \<and> playerCount g' = (if l = AtScan \<and> playerCount g \<noteq> 2 then playerCount g + 1 else playerCount g)
       \<and> (in_game l' \<longleftrightarrow> in_game l \<or> (l = AtScan \<and> playerCount g \<noteq> 2))
       \<and> (\<not> in_game l \<longrightarrow> p' = p)
       \<and> (l = AtJoin \<longrightarrow> l' \<noteq> AtJoin)
       \<and> (l' = Played \<longrightarrow> l = Played \<or> currentGameState g' \<noteq> StillPlaying)
       \<and> (currentGameState g \<noteq> StillPlaying \<longrightarrow>
            currentGameState g' = currentGameState g \<and> gameBoard g' = gameBoard g)
       \<and> (game_ok g h \<longrightarrow> game_ok g' (h @ board_diff (gameBoard g) (gameBoard g')))"
proof (cases l)
  case AtScan
  then show ?thesis using assms
    by (auto simp add: segment_def claimGame_def in_game_def board_diff_same game_ok_def
             split: if_splits)
next
  case Skipped
  then show ?thesis using assms by (auto simp add: segment_def in_game_def board_diff_same)
next
  case Played
  then show ?thesis using assms by (auto simp add: segment_def in_game_def board_diff_same)
next
  case Exited
  then show ?thesis using assms by (auto simp add: segment_def in_game_def board_diff_same)
next
  case WaitTurn
  then have "PlayGame_woken (int rnd) p g = (l', n, p', g')" using assms by (simp add: segment_def)
  from PlayGame_woken_summary [OF this, of h] show ?thesis
    using WaitTurn by (auto simp add: in_game_def)
next
  case WaitPartner
  show ?thesis
  proof (cases "playerX g = - 1 \<or> playerO g = - 1")
    case True
    then show ?thesis using assms WaitPartner
      by (auto simp add: segment_def JoinGame_wait_eq in_game_def board_diff_same split: if_splits)
  next
    case False
    then have "PlayGame_woken (int rnd) p g = (l', n, p', g')"
      using assms WaitPartner by (simp add: segment_def JoinGame_wait_eq)
    from PlayGame_woken_summary [OF this, of h] show ?thesis
      using WaitPartner by (auto simp add: in_game_def)
  qed
next
  case AtJoin
  let ?r = "if playerO g = - 1 then P_O else P_X"
  let ?g1 = "if playerO g = - 1 then g\<lparr>playerO := id_p p\<rparr> else g\<lparr>playerX := id_p p\<rparr>"
  have ok1: "game_ok ?g1 h = game_ok g h" by (simp add: game_ok_def)
  have b1: "gameBoard ?g1 = gameBoard g" "playerCount ?g1 = playerCount g" by simp_all
  show ?thesis
  proof (cases "(playerO g = - 1 \<and> playerX g = - 1) \<or> id_p p = - 1")
    case True
    then show ?thesis using assms AtJoin
      by (auto simp add: segment_def JoinGame_eq in_game_def board_diff_same game_ok_def
               split: if_splits)
  next
    case False
    then have "PlayGame_woken (int rnd) (p\<lparr>type := ?r\<rparr>) ?g1 = (l', n, p', g')"
      using assms AtJoin by (auto simp add: segment_def JoinGame_eq split: if_splits)
    from PlayGame_woken_summary [OF this, of h] show ?thesis
      using AtJoin ok1 b1 by (auto simp add: in_game_def)
  qed
qed

lemma step_halted: "halted (slot T) \<Longrightarrow> step tr T = T"
  by (cases tr) (simp add: step_def slot_step_def)

lemma step_eq:
  assumes "\<not> halted (slot T)"
    and "segment (loc_of (slot T) t) (int rnd) (players T t) (game (slot T)) = (l, n, p', g')"
  shows "step (t, rnd) T =
           \<lparr>players = (players T)(t := p'),
            slot = \<lparr>game = g',
                    loc_of = (loc_of (slot T))(t := l),
                    notified = (if n then notify_all (loc_of (slot T)) (notified (slot T))
                                else notified (slot T))(t := False),
                    halted = (l = Exited),
                    history = history (slot T)
                                @ board_diff (gameBoard (game (slot T))) (gameBoard g')\<rparr>\<rparr>"
  using assms by (simp add: step_def slot_step_def)

lemma in_game_update:
  "{u. in_game ((L(t := l)) u)} =
     (if in_game l then insert t {u. in_game (L u)} else {u. in_game (L u)} - {t})"
  by auto

lemma count_inv_step:
  assumes inv: "count_inv T"
  shows "count_inv (step (t, rnd) T)"
proof (cases "halted (slot T)")
  case True
  then show ?thesis using inv by (simp add: step_halted)
next
  case False
  let ?s = "slot T" and ?g = "game (slot T)" and ?L = "loc_of (slot T)"
  obtain l n p' g' where seg: "segment (?L t) (int rnd) (players T t) ?g = (l, n, p', g')"
    by (cases "segment (?L t) (int rnd) (players T t) ?g") auto
  note st = step_eq [OF False seg]
  note sm = segment_summary [OF seg, of "history ?s"]
  have fin: "finite {u. in_game (?L u)}" using inv by (simp add: count_inv_def)
  have cnt: "int (card {u. in_game (?L u)}) = playerCount ?g" using inv by (simp add: count_inv_def)
  have rng: "0 \<le> playerCount ?g" "playerCount ?g \<le> 2" using inv by (simp_all add: count_inv_def)
  have 2: "0 \<le> playerCount g'" "playerCount g' \<le> 2" using rng sm by auto
  have 3: "finite {u. in_game ((?L(t := l)) u)}" unfolding in_game_update using fin by simp
  have 4: "int (card {u. in_game ((?L(t := l)) u)}) = playerCount g'"
  proof (cases "in_game (?L t)")
    case True
    then have "in_game l" using sm by simp
    then have "{u. in_game ((?L(t := l)) u)} = {u. in_game (?L u)}"
      unfolding in_game_update using True by auto
    moreover have "playerCount g' = playerCount ?g" using sm True by (auto simp add: in_game_def)
    ultimately show ?thesis using cnt by simp
  next
    case notin: False
    show ?thesis
    proof (cases "in_game l")
      case True
      then have j: "?L t = AtScan \<and> playerCount ?g \<noteq> 2" using sm notin by simp
      have "t \<notin> {u. in_game (?L u)}" using notin by simp
      then have "card (insert t {u. in_game (?L u)}) = Suc (card {u. in_game (?L u)})"
        using fin by simp
      moreover have "playerCount g' = playerCount ?g + 1" using sm j by simp
      ultimately show ?thesis unfolding in_game_update using True cnt by simp
    next
      case False
      then have "{u. in_game ((?L(t := l)) u)} = {u. in_game (?L u)}"
        unfolding in_game_update using notin by auto
      moreover have "playerCount g' = playerCount ?g" using sm False notin by auto
      ultimately show ?thesis using cnt by simp
    qed
  qed
  show ?thesis unfolding st count_inv_def using 2 3 4 by simp
qed

lemma game_ok_step:
  assumes ok: "game_ok (game (slot T)) (history (slot T))"
  shows "game_ok (game (slot (step (t, rnd) T))) (history (slot (step (t, rnd) T)))"
proof (cases "halted (slot T)")
  case True
  then show ?thesis using ok by (simp add: step_halted)
next
  case False
  obtain l n p' g' where
    seg: "segment (loc_of (slot T) t) (int rnd) (players T t) (game (slot T)) = (l, n, p', g')"
    by (cases "segment (loc_of (slot T) t) (int rnd) (players T t) (game (slot T))") auto
  note st = step_eq [OF False seg]
  note sm = segment_summary [OF seg, of "history (slot T)"]
  show ?thesis unfolding st using sm ok by simp
qed

lemma base_inv_step:
  assumes inv: "base_inv ps0 T"
  shows "base_inv ps0 (step (t, rnd) T)"
proof (cases "halted (slot T)")
  case True
  then show ?thesis using inv by (simp add: step_halted)
next
  case False
  let ?s = "slot T" and ?g = "game (slot T)" and ?L = "loc_of (slot T)"
  obtain l n p' g' where seg: "segment (?L t) (int rnd) (players T t) ?g = (l, n, p', g')"
    by (cases "segment (?L t) (int rnd) (players T t) ?g") auto
  note st = step_eq [OF False seg]
  note sm = segment_summary [OF seg, of "history ?s"]
  have ids: "\<forall>u. id_p (players T u) = int u" using inv by (simp add: base_inv_def)
  have fresh: "\<forall>u. ?L u = AtScan \<or> ?L u = Skipped \<or> ?L u = AtJoin \<longrightarrow> players T u = ps0 u"
    using inv by (simp add: base_inv_def)
  have over: "\<forall>u. ?L u = Played \<longrightarrow> currentGameState ?g \<noteq> StillPlaying"
    using inv by (simp add: base_inv_def)
  have 1: "\<forall>u. id_p (players (step (t, rnd) T) u) = int u" unfolding st using ids sm by simp
  have 2: "count_inv (step (t, rnd) T)"
    using inv by (intro count_inv_step) (simp add: base_inv_def)
  have 5: "game_ok (game (slot (step (t, rnd) T))) (history (slot (step (t, rnd) T)))"
    using inv by (intro game_ok_step) (simp add: base_inv_def)
  have 6: "(?L(t := l)) u = AtScan \<or> (?L(t := l)) u = Skipped \<or> (?L(t := l)) u = AtJoin
            \<longrightarrow> ((players T)(t := p')) u = ps0 u" for u
  proof (cases "u = t")
    case False
    then show ?thesis using fresh by simp
  next
    case True
    show ?thesis
    proof (cases "in_game (?L t)")
      case False
      then have "p' = players T t" "players T t = ps0 t"
        using sm fresh by (auto simp add: in_game_def)
      then show ?thesis using True by simp
    next
      case ig: True
      then have "in_game l" using sm by simp
      moreover have "l \<noteq> AtJoin"
      proof (cases "?L t = AtJoin")
        case True
        then show ?thesis using sm by simp
      next
        case False
        then show ?thesis using seg ig
          by (cases "?L t")
             (auto simp add: segment_def in_game_def JoinGame_wait_eq
                   dest: PlayGame_woken_summary split: if_splits)
      qed
      ultimately show ?thesis using True by (auto simp add: in_game_def)
    qed
  qed
  have 7: "(?L(t := l)) u = Played \<longrightarrow> currentGameState g' \<noteq> StillPlaying" for u
  proof (cases "u = t")
    case True
    then show ?thesis using sm over by auto
  next
    case False
    show ?thesis
    proof
      assume "(?L(t := l)) u = Played"
      then have "currentGameState ?g \<noteq> StillPlaying" using False over by auto
      then show "currentGameState g' \<noteq> StillPlaying" using sm by simp
    qed
  qed
  have 67: "(\<forall>u. loc_of (slot (step (t, rnd) T)) u = AtScan
                 \<or> loc_of (slot (step (t, rnd) T)) u = Skipped
                 \<or> loc_of (slot (step (t, rnd) T)) u = AtJoin
              \<longrightarrow> players (step (t, rnd) T) u = ps0 u)
          \<and> (\<forall>u. loc_of (slot (step (t, rnd) T)) u = Played
              \<longrightarrow> currentGameState (game (slot (step (t, rnd) T))) \<noteq> StillPlaying)"
    unfolding st using 6 7 by simp
  show ?thesis unfolding base_inv_def using 1 2 5 67 by blast
qed

lemma count_inv_run:
  assumes "count_inv T"
  shows "count_inv (run schedule T)"
  using assms
proof (induction schedule arbitrary: T)
  case Nil
  then show ?case by (simp add: run_def)
next
  case (Cons tr schedule)
  obtain t rnd where tr: "tr = (t, rnd)" by (cases tr)
  have "count_inv (step tr T)" unfolding tr by (rule count_inv_step [OF Cons.prems])
  from Cons.IH [OF this] show ?case by (simp add: run_def)
qed

lemma game_ok_run:
  assumes "game_ok (game (slot T)) (history (slot T))"
  shows "game_ok (game (slot (run schedule T))) (history (slot (run schedule T)))"
  using assms
proof (induction schedule arbitrary: T)
  case Nil
  then show ?case by (simp add: run_def)
next
  case (Cons tr schedule)
  obtain t rnd where tr: "tr = (t, rnd)" by (cases tr)
  have "game_ok (game (slot (step tr T))) (history (slot (step tr T)))"
    unfolding tr by (rule game_ok_step [OF Cons.prems])
  from Cons.IH [OF this] show ?case by (simp add: run_def)
qed

lemma base_inv_run:
  assumes "base_inv ps0 T"
  shows "base_inv ps0 (run schedule T)"
  using assms
proof (induction schedule arbitrary: T)
  case Nil
  then show ?case by (simp add: run_def)
next
  case (Cons tr schedule)
  obtain t rnd where tr: "tr = (t, rnd)" by (cases tr)
  have "base_inv ps0 (step tr T)" unfolding tr by (rule base_inv_step [OF Cons.prems])
  from Cons.IH [OF this] show ?case by (simp add: run_def)
qed

lemma base_inv_init:
  assumes "\<forall>t. id_p (ps0 t) = int t"
  shows "base_inv ps0 (initTable ps0 (initGame i))"
  using assms
  by (simp add: base_inv_def count_inv_def initTable_def initSlot_def initGame_def in_game_def
        game_ok_def)

lemma two_in_game:
  assumes "finite S" and "card S \<le> 2" and "a \<in> S" and "b \<in> S" and "a \<noteq> b"
  shows "S = {a, b}"
proof -
  have "{a, b} \<subseteq> S" using assms by simp
  moreover have "card S \<le> card {a, b}" using assms by simp
  ultimately show ?thesis using assms(1) by (metis card_seteq)
qed

lemma tally_same: "tally p0 p r 0 0 0 0 \<Longrightarrow> tally p0 (p\<lparr>type := r'\<rparr>) r' 0 0 0 0"
  by (simp add: tally_def)

lemma pair_step:
  assumes pi: "pair_inv ps0 T m rm w rw"
    and mw: "m \<noteq> w"
    and turn: "currentTurn (game (slot T)) = rw"
    and roles: "(rm = P_O \<and> rw = P_X) \<or> (rm = P_X \<and> rw = P_O)"
    and nh: "\<not> halted (slot T)"
    and pl: "playerO (game (slot T)) \<noteq> - 1" "playerX (game (slot T)) \<noteq> - 1"
    and t: "t = m \<or> t = w"
    and wt: "waiting (loc_of (slot T) t)"
  shows "halted (slot (step (t, rnd) T))
       \<or> (playerO (game (slot (step (t, rnd) T))) = playerO (game (slot T))
          \<and> playerX (game (slot (step (t, rnd) T))) = playerX (game (slot T))
          \<and> playerCount (game (slot (step (t, rnd) T))) = playerCount (game (slot T))
          \<and> (\<forall>u. u \<noteq> t \<longrightarrow> loc_of (slot (step (t, rnd) T)) u = loc_of (slot T) u)
          \<and> in_game (loc_of (slot (step (t, rnd) T)) t)
          \<and> (if currentTurn (game (slot (step (t, rnd) T))) = rw
              then currentTurn (game (slot T)) = currentTurn (game (slot (step (t, rnd) T)))
                   \<and> pair_inv ps0 (step (t, rnd) T) m rm w rw
              else currentTurn (game (slot (step (t, rnd) T))) = rm
                   \<and> pair_inv ps0 (step (t, rnd) T) w rw m rm))"
proof -
  let ?g = "game (slot T)" and ?L = "loc_of (slot T)" and ?p = "players T t"
  have seg0: "segment (?L t) (int rnd) ?p ?g = PlayGame_woken (int rnd) ?p ?g"
    using wt pl by (auto simp add: waiting_def segment_def JoinGame_wait_eq)
  show ?thesis
  proof (cases "currentGameState ?g = StillPlaying")
    case sp: True
    then have P: "?L m = WaitTurn" "tally (ps0 m) (players T m) rm 0 0 0 0"
      "waiting (?L w)" "notified (slot T) w" "tally (ps0 w) (players T w) rw 0 0 0 0"
      using pi by (simp_all add: pair_inv_def)
    show ?thesis
    proof (cases "t = w")
      case False
      then have tm: "t = m" using t by simp
      have "type ?p = rm" using P(2) tm by (simp add: tally_def)
      moreover have "rm \<noteq> rw" using roles by auto
      ultimately have "currentTurn ?g \<noteq> type ?p" using turn by simp
      then have "segment (?L t) (int rnd) ?p ?g = (Exited, False, ?p, ?g)"
        using seg0 sp by (simp add: PlayGame_woken_wrong)
      from step_eq [OF nh this] show ?thesis by simp
    next
      case tw: True
      have ty: "type ?p = rw" using P(5) tw by (simp add: tally_def)
      then have tn: "currentTurn ?g = type ?p" using turn by simp
      obtain st p2 g2 where
        mv: "MakeAMove (int rnd) ?p (?g\<lparr>currentTurn := otherType (type ?p)\<rparr>) = (st, p2, g2)"
        by (cases "MakeAMove (int rnd) ?p (?g\<lparr>currentTurn := otherType (type ?p)\<rparr>)")
      note f = MakeAMove_frame [OF mv]
      have seg: "segment (?L t) (int rnd) ?p ?g =
           (if st = StillPlaying then WaitTurn else Played, True,
            if st = StillPlaying then p2 else p2\<lparr>gamesPlayed := gamesPlayed p2 + 1\<rparr>,
            g2\<lparr>currentGameState := st\<rparr>)"
        unfolding seg0 by (rule PlayGame_woken_turn [OF sp tn mv])
      note st = step_eq [OF nh seg]
      have "currentTurn g2 = otherType rw" using f ty by simp
      then have t2: "currentTurn g2 = rm" using roles by (auto simp add: otherType_def)
      have ne: "rm \<noteq> rw" using roles by auto
      have pw: "tally (ps0 w) p2 rw 0 (if st = Won then 1 else 0) 0 (if st = Draw then 1 else 0)"
        using P(5) f tw by (simp add: tally_def)
      have "pair_inv ps0 (step (t, rnd) T) w rw m rm"
        unfolding st using tw mw P(1) P(2) pw
        by (cases st) (simp_all add: pair_inv_def waiting_def tally_def notify_all_def)
      then show ?thesis using t2 ne f unfolding st by (simp add: in_game_def)
    qed
  next
    case over: False
    then have Lm: "?L m = Played" using pi by (cases "currentGameState ?g") (simp_all add: pair_inv_def)
    then have tw: "t = w" using t wt by (auto simp add: waiting_def)
    have Lw: "?L w \<noteq> Played" using wt tw by (auto simp add: waiting_def)
    have seg: "segment (?L t) (int rnd) ?p ?g =
           (Played, False,
            if currentGameState ?g = Won
            then ?p\<lparr>loseCount := loseCount ?p + 1, gamesPlayed := gamesPlayed ?p + 1\<rparr>
            else ?p\<lparr>drawCount := drawCount ?p + 1, gamesPlayed := gamesPlayed ?p + 1\<rparr>, ?g)"
      unfolding seg0 by (rule PlayGame_woken_over [OF over])
    note st = step_eq [OF nh seg]
    have "pair_inv ps0 (step (t, rnd) T) m rm w rw"
      unfolding st using pi over tw mw Lw
      by (cases "currentGameState ?g") (simp_all add: pair_inv_def tally_def)
    then show ?thesis using turn unfolding st by (simp add: in_game_def)
  qed
qed

lemma pair_inv_in_game:
  assumes "pair_inv ps0 T m rm w rw"
  shows "in_game (loc_of (slot T) m) \<and> in_game (loc_of (slot T) w)
       \<and> loc_of (slot T) m \<noteq> AtJoin \<and> loc_of (slot T) w \<noteq> AtJoin
       \<and> loc_of (slot T) m \<noteq> Exited \<and> loc_of (slot T) w \<noteq> Exited"
  using assms
  by (cases "currentGameState (game (slot T))")
     (auto simp add: pair_inv_def in_game_def waiting_def split: if_splits)

lemma pair_inv_frame:
  assumes "pair_inv ps0 T m rm w rw"
    and "currentGameState (game (slot T')) = currentGameState (game (slot T))"
    and "loc_of (slot T') m = loc_of (slot T) m" and "loc_of (slot T') w = loc_of (slot T) w"
    and "players T' m = players T m" and "players T' w = players T w"
    and "loc_of (slot T) w \<noteq> Played \<longrightarrow> notified (slot T') w = notified (slot T) w"
  shows "pair_inv ps0 T' m rm w rw"
  using assms
  by (cases "currentGameState (game (slot T))")
     (auto simp add: pair_inv_def waiting_def split: if_splits)

lemma phase0I:
  assumes "playerO (game (slot T)) = - 1" and "playerX (game (slot T)) = - 1"
    and "\<And>u. \<not> in_game (loc_of (slot T) u) \<or> loc_of (slot T) u = AtJoin"
    and "currentGameState (game (slot T)) = StillPlaying" and "history (slot T) = []"
    and "gameBoard (game (slot T)) = (\<lambda>row col. P_None)"
  shows "phase_inv ps0 T"
  using assms by (simp add: phase_inv_def Let_def)

lemma phase0D:
  assumes "phase_inv ps0 T" and "playerO (game (slot T)) = - 1"
  shows "playerX (game (slot T)) = - 1"
    and "\<not> in_game (loc_of (slot T) u) \<or> loc_of (slot T) u = AtJoin"
    and "currentGameState (game (slot T)) = StillPlaying" and "history (slot T) = []"
    and "gameBoard (game (slot T)) = (\<lambda>row col. P_None)"
  using assms by (simp_all add: phase_inv_def Let_def)

lemma phase1I:
  assumes "playerO (game (slot T)) \<noteq> - 1" and "playerX (game (slot T)) = - 1"
    and "0 \<le> playerO (game (slot T))"
    and "loc_of (slot T) (nat (playerO (game (slot T)))) = WaitPartner"
    and "tally (ps0 (nat (playerO (game (slot T))))) (players T (nat (playerO (game (slot T))))) P_O 0 0 0 0"
    and "\<And>u. u \<noteq> nat (playerO (game (slot T))) \<Longrightarrow>
            \<not> in_game (loc_of (slot T) u) \<or> loc_of (slot T) u = AtJoin"
    and "currentGameState (game (slot T)) = StillPlaying" and "history (slot T) = []"
    and "gameBoard (game (slot T)) = (\<lambda>row col. P_None)"
    and "\<not> notified (slot T) (nat (playerO (game (slot T))))"
  shows "phase_inv ps0 T"
  using assms by (simp add: phase_inv_def Let_def)

lemma phase1D:
  assumes "phase_inv ps0 T" and "playerO (game (slot T)) \<noteq> - 1" and "playerX (game (slot T)) = - 1"
  shows "0 \<le> playerO (game (slot T))"
    and "loc_of (slot T) (nat (playerO (game (slot T)))) = WaitPartner"
    and "tally (ps0 (nat (playerO (game (slot T))))) (players T (nat (playerO (game (slot T))))) P_O 0 0 0 0"
    and "u \<noteq> nat (playerO (game (slot T))) \<Longrightarrow>
            \<not> in_game (loc_of (slot T) u) \<or> loc_of (slot T) u = AtJoin"
    and "currentGameState (game (slot T)) = StillPlaying" and "history (slot T) = []"
    and "gameBoard (game (slot T)) = (\<lambda>row col. P_None)"
    and "\<not> notified (slot T) (nat (playerO (game (slot T))))"
  using assms by (simp_all add: phase_inv_def Let_def)

lemma phase2I:
  assumes "playerO (game (slot T)) \<noteq> - 1" and "playerX (game (slot T)) \<noteq> - 1"
    and "0 \<le> playerO (game (slot T))" and "0 \<le> playerX (game (slot T))"
    and "nat (playerO (game (slot T))) \<noteq> nat (playerX (game (slot T)))"
    and "playerCount (game (slot T)) = 2"
    and "\<And>u. u \<noteq> nat (playerO (game (slot T))) \<Longrightarrow> u \<noteq> nat (playerX (game (slot T))) \<Longrightarrow>
            \<not> in_game (loc_of (slot T) u)"
    and "if currentTurn (game (slot T)) = P_X
         then pair_inv ps0 T (nat (playerO (game (slot T)))) P_O (nat (playerX (game (slot T)))) P_X
         else pair_inv ps0 T (nat (playerX (game (slot T)))) P_X (nat (playerO (game (slot T)))) P_O"
  shows "phase_inv ps0 T"
  using assms by (simp add: phase_inv_def Let_def)

lemma phase2D:
  assumes "phase_inv ps0 T" and "playerO (game (slot T)) \<noteq> - 1" and "playerX (game (slot T)) \<noteq> - 1"
  shows "0 \<le> playerO (game (slot T))" and "0 \<le> playerX (game (slot T))"
    and "nat (playerO (game (slot T))) \<noteq> nat (playerX (game (slot T)))"
    and "playerCount (game (slot T)) = 2"
    and "u \<noteq> nat (playerO (game (slot T))) \<Longrightarrow> u \<noteq> nat (playerX (game (slot T))) \<Longrightarrow>
            \<not> in_game (loc_of (slot T) u)"
    and "if currentTurn (game (slot T)) = P_X
         then pair_inv ps0 T (nat (playerO (game (slot T)))) P_O (nat (playerX (game (slot T)))) P_X
         else pair_inv ps0 T (nat (playerX (game (slot T)))) P_X (nat (playerO (game (slot T)))) P_O"
  using assms by (simp_all add: phase_inv_def Let_def)

lemma phase_step_idle:
  assumes nh: "\<not> halted (slot T)" and ph: "phase_inv ps0 T"
    and idle: "\<not> in_game (loc_of (slot T) t) \<or> loc_of (slot T) t = Played
               \<or> loc_of (slot T) t = Exited"
  shows "halted (slot (step (t, rnd) T)) \<or> phase_inv ps0 (step (t, rnd) T)"
proof -
  let ?g = "game (slot T)" and ?L = "loc_of (slot T)" and ?p = "players T t"
  let ?l = "if ?L t = AtScan then (if playerCount ?g = 2 then Skipped else AtJoin) else ?L t"
  let ?g' = "if ?L t = AtScan \<and> playerCount ?g \<noteq> 2
             then ?g\<lparr>playerCount := playerCount ?g + 1\<rparr> else ?g"
  have seg: "segment (?L t) (int rnd) ?p ?g = (?l, False, ?p, ?g')"
    using idle by (cases "?L t") (auto simp add: segment_def claimGame_def in_game_def)
  note st = step_eq [OF nh seg]
  have bd: "board_diff (gameBoard ?g) (gameBoard ?g') = []" by (simp add: board_diff_same)
  let ?T' = "step (t, rnd) T"
  have g': "playerO (game (slot ?T')) = playerO ?g" "playerX (game (slot ?T')) = playerX ?g"
    "currentTurn (game (slot ?T')) = currentTurn ?g"
    "currentGameState (game (slot ?T')) = currentGameState ?g"
    "history (slot ?T') = history (slot T)" "players ?T' = players T"
    "\<And>u. u \<noteq> t \<Longrightarrow> loc_of (slot ?T') u = ?L u"
    "\<And>u. u \<noteq> t \<Longrightarrow> notified (slot ?T') u = notified (slot T) u"
    "loc_of (slot ?T') t = ?l" "halted (slot ?T') = (?l = Exited)"
    "gameBoard (game (slot ?T')) = gameBoard ?g"
    unfolding st using bd by simp_all
  have fresh': "\<not> in_game (loc_of (slot ?T') u) \<or> loc_of (slot ?T') u = AtJoin"
    if "\<not> in_game (?L u) \<or> ?L u = AtJoin" for u
  proof (cases "u = t")
    case False
    then show ?thesis using that g'(7) by simp
  next
    case True
    then show ?thesis using that idle unfolding True g'(9) by (auto simp add: in_game_def)
  qed
  show ?thesis
  proof (cases "?l = Exited")
    case True
    then show ?thesis using g'(10) by simp
  next
    case ne: False
    show ?thesis
    proof (cases "playerO ?g = - 1")
      case True
      note D = phase0D [OF ph True]
      have "phase_inv ps0 ?T'"
      proof (rule phase0I)
        show "playerO (game (slot ?T')) = - 1" using True g'(1) by simp
        show "playerX (game (slot ?T')) = - 1" using D(1) g'(2) by simp
        show "currentGameState (game (slot ?T')) = StillPlaying" using D(3) g'(4) by simp
        show "history (slot ?T') = []" using D(4) g'(5) by simp
        show "gameBoard (game (slot ?T')) = (\<lambda>row col. P_None)" using D(5) g'(11) by simp
        show "\<not> in_game (loc_of (slot ?T') u) \<or> loc_of (slot ?T') u = AtJoin" for u
          by (rule fresh' [OF D(2)])
      qed
      then show ?thesis ..
    next
      case pO: False
      show ?thesis
      proof (cases "playerX ?g = - 1")
        case True
        let ?o = "nat (playerO ?g)"
        note D = phase1D [OF ph pO True]
        have to: "t \<noteq> ?o" using D(2) idle by (auto simp add: in_game_def)
        have "phase_inv ps0 ?T'"
        proof (rule phase1I)
          show "playerO (game (slot ?T')) \<noteq> - 1" using pO g'(1) by simp
          show "playerX (game (slot ?T')) = - 1" using True g'(2) by simp
          show "0 \<le> playerO (game (slot ?T'))" using D(1) g'(1) by simp
          show "loc_of (slot ?T') (nat (playerO (game (slot ?T')))) = WaitPartner"
            unfolding g'(1) using g'(7) [of ?o] to D(2) by simp
          show "tally (ps0 (nat (playerO (game (slot ?T')))))
                  (players ?T' (nat (playerO (game (slot ?T'))))) P_O 0 0 0 0"
            unfolding g'(1) g'(6) by (rule D(3))
          show "currentGameState (game (slot ?T')) = StillPlaying" using D(5) g'(4) by simp
          show "history (slot ?T') = []" using D(6) g'(5) by simp
          show "gameBoard (game (slot ?T')) = (\<lambda>row col. P_None)" using D(7) g'(11) by simp
          show "\<not> notified (slot ?T') (nat (playerO (game (slot ?T'))))"
            unfolding g'(1) using g'(8) [of ?o] to D(8) by simp
          show "\<not> in_game (loc_of (slot ?T') u) \<or> loc_of (slot ?T') u = AtJoin"
            if "u \<noteq> nat (playerO (game (slot ?T')))" for u
            using that unfolding g'(1) by (intro fresh' D(4))
        qed
        then show ?thesis ..
      next
        case pX: False
        let ?o = "nat (playerO ?g)" and ?x = "nat (playerX ?g)"
        note D = phase2D [OF ph pO pX]
        have geq: "?g' = ?g" using D(4) by simp
        have gT: "game (slot ?T') = ?g" unfolding st using geq by simp
        have keep: "loc_of (slot ?T') u = ?L u" if "in_game (?L u)" for u
        proof (cases "u = t")
          case False
          then show ?thesis using g'(7) by simp
        next
          case True
          then have "?L t = Played" using that idle ne by (auto simp add: in_game_def)
          then show ?thesis using True g'(9) by simp
        qed
        have nk: "notified (slot ?T') u = notified (slot T) u" if "?L u \<noteq> Played" "in_game (?L u)" for u
        proof (cases "u = t")
          case False
          then show ?thesis using g'(8) by simp
        next
          case True
          then show ?thesis using that idle ne by (auto simp add: in_game_def)
        qed
        have pf: "pair_inv ps0 ?T' m rm w rw" if "pair_inv ps0 T m rm w rw" for m rm w rw
        proof (rule pair_inv_frame [OF that])
          note ig = pair_inv_in_game [OF that]
          show "currentGameState (game (slot ?T')) = currentGameState ?g" by (rule g'(4))
          show "loc_of (slot ?T') m = ?L m" using keep ig by simp
          show "loc_of (slot ?T') w = ?L w" using keep ig by simp
          show "players ?T' m = players T m" "players ?T' w = players T w" using g'(6) by simp_all
          show "?L w \<noteq> Played \<longrightarrow> notified (slot ?T') w = notified (slot T) w"
            using nk ig by simp
        qed
        have "phase_inv ps0 ?T'"
        proof (rule phase2I)
          show "playerO (game (slot ?T')) \<noteq> - 1" "playerX (game (slot ?T')) \<noteq> - 1"
            "0 \<le> playerO (game (slot ?T'))" "0 \<le> playerX (game (slot ?T'))"
            "nat (playerO (game (slot ?T'))) \<noteq> nat (playerX (game (slot ?T')))"
            "playerCount (game (slot ?T')) = 2"
            unfolding gT using pO pX D(1-4) by simp_all
          show "\<not> in_game (loc_of (slot ?T') u)"
            if "u \<noteq> nat (playerO (game (slot ?T')))" "u \<noteq> nat (playerX (game (slot ?T')))" for u
          proof (cases "u = t")
            case False
            then show ?thesis using D(5) [of u] that g'(7) unfolding gT by simp
          next
            case True
            then have "\<not> in_game (?L t)" using D(5) [of u] that unfolding gT by simp
            then have "?l = Skipped" using D(4) by (cases "?L t") (auto simp add: in_game_def)
            then show ?thesis unfolding True g'(9) by (simp add: in_game_def)
          qed
          show "if currentTurn (game (slot ?T')) = P_X
                then pair_inv ps0 ?T' (nat (playerO (game (slot ?T')))) P_O
                       (nat (playerX (game (slot ?T')))) P_X
                else pair_inv ps0 ?T' (nat (playerX (game (slot ?T')))) P_X
                       (nat (playerO (game (slot ?T')))) P_O"
            unfolding gT using D(6) pf by (simp split: if_splits)
        qed
        then show ?thesis ..
      qed
    qed
  qed
qed

lemma phase_step_join:
  assumes base: "base_inv ps0 T" and nh: "\<not> halted (slot T)" and ph: "phase_inv ps0 T"
    and at: "loc_of (slot T) t = AtJoin"
  shows "halted (slot (step (t, rnd) T)) \<or> phase_inv ps0 (step (t, rnd) T)"
proof -
  let ?g = "game (slot T)" and ?L = "loc_of (slot T)" and ?p = "players T t"
  let ?T' = "step (t, rnd) T"
  have idt: "id_p ?p = int t" using base by (simp add: base_inv_def)
  have fresh: "?p = ps0 t" using base at by (simp add: base_inv_def)
  have ok: "game_ok ?g (history (slot T))" using base by (simp add: base_inv_def)
  have fin: "finite {u. in_game (?L u)}" and crd: "int (card {u. in_game (?L u)}) = playerCount ?g"
    and le2: "playerCount ?g \<le> 2"
    using base by (simp_all add: base_inv_def count_inv_def)
  show ?thesis
  proof (cases "playerO ?g = - 1")
    case True
    note D = phase0D [OF ph True]
    have seg: "segment (?L t) (int rnd) ?p ?g
                 = (WaitPartner, False, ?p\<lparr>type := P_O\<rparr>, ?g\<lparr>playerO := int t\<rparr>)"
      using at True D(1) idt by (simp add: segment_def JoinGame_eq)
    note st = step_eq [OF nh seg]
    have "phase_inv ps0 ?T'"
    proof (rule phase1I)
      show "playerO (game (slot ?T')) \<noteq> - 1" "playerX (game (slot ?T')) = - 1"
        "0 \<le> playerO (game (slot ?T'))"
        "currentGameState (game (slot ?T')) = StillPlaying"
        "history (slot ?T') = []"
        "loc_of (slot ?T') (nat (playerO (game (slot ?T')))) = WaitPartner"
        "gameBoard (game (slot ?T')) = (\<lambda>row col. P_None)"
        "\<not> notified (slot ?T') (nat (playerO (game (slot ?T'))))"
        unfolding st using D(1) D(3) D(4) D(5) by (simp_all add: board_diff_same)
      show "tally (ps0 (nat (playerO (game (slot ?T')))))
              (players ?T' (nat (playerO (game (slot ?T'))))) P_O 0 0 0 0"
        unfolding st using fresh by (simp add: tally_def)
      show "\<not> in_game (loc_of (slot ?T') u) \<or> loc_of (slot ?T') u = AtJoin"
        if "u \<noteq> nat (playerO (game (slot ?T')))" for u
        using that D(2) [of u] unfolding st by simp
    qed
    then show ?thesis ..
  next
    case pO: False
    show ?thesis
    proof (cases "playerX ?g = - 1")
      case True
      let ?o = "nat (playerO ?g)"
      note D = phase1D [OF ph pO True]
      have to: "t \<noteq> ?o" using D(2) at by auto
      let ?p1 = "?p\<lparr>type := P_X\<rparr>" and ?g1 = "?g\<lparr>playerX := int t\<rparr>"
      have seg0: "segment (?L t) (int rnd) ?p ?g = PlayGame_woken (int rnd) ?p1 ?g1"
        using at pO idt by (simp add: segment_def JoinGame_eq)
      have sp: "currentGameState ?g1 = StillPlaying" using D(5) by simp
      have "currentTurn ?g = P_X" using ok D(5) D(6) by (simp add: game_ok_def)
      then have tn: "currentTurn ?g1 = type ?p1" by simp
      obtain st p2 g2 where
        mv: "MakeAMove (int rnd) ?p1 (?g1\<lparr>currentTurn := otherType (type ?p1)\<rparr>) = (st, p2, g2)"
        by (cases "MakeAMove (int rnd) ?p1 (?g1\<lparr>currentTurn := otherType (type ?p1)\<rparr>)")
      note f = MakeAMove_frame [OF mv]
      have seg: "segment (?L t) (int rnd) ?p ?g =
           (if st = StillPlaying then WaitTurn else Played, True,
            if st = StillPlaying then p2 else p2\<lparr>gamesPlayed := gamesPlayed p2 + 1\<rparr>,
            g2\<lparr>currentGameState := st\<rparr>)"
        unfolding seg0 by (rule PlayGame_woken_turn [OF sp tn mv])
      note stp = step_eq [OF nh seg]
      have S: "{u. in_game (?L u)} = {?o, t}"
      proof (rule two_in_game [OF fin])
        show "card {u. in_game (?L u)} \<le> 2" using crd le2 by simp
        show "?o \<in> {u. in_game (?L u)}" using D(2) by (simp add: in_game_def)
        show "t \<in> {u. in_game (?L u)}" using at by (simp add: in_game_def)
        show "?o \<noteq> t" using to by simp
      qed
      then have "card {u. in_game (?L u)} = 2" using to by simp
      then have pc: "playerCount ?g = 2" using crd by simp
      have others: "\<not> in_game (?L u)" if "u \<noteq> ?o" "u \<noteq> t" for u
        using S that by blast
      have g2f: "playerO g2 = playerO ?g" "playerX g2 = int t" "playerCount g2 = 2"
        "currentTurn g2 = P_O"
        using f pc by (simp_all add: otherType_def)
      have p2t: "tally (ps0 t) p2 P_X 0 (if st = Won then 1 else 0) 0 (if st = Draw then 1 else 0)"
        using f fresh by (simp add: tally_def)
      have "phase_inv ps0 ?T'"
      proof (rule phase2I)
        show "playerO (game (slot ?T')) \<noteq> - 1" "playerX (game (slot ?T')) \<noteq> - 1"
          "0 \<le> playerO (game (slot ?T'))" "0 \<le> playerX (game (slot ?T'))"
          "nat (playerO (game (slot ?T'))) \<noteq> nat (playerX (game (slot ?T')))"
          "playerCount (game (slot ?T')) = 2"
          unfolding stp using g2f pO D(1) to by simp_all
        show "\<not> in_game (loc_of (slot ?T') u)"
          if "u \<noteq> nat (playerO (game (slot ?T')))" "u \<noteq> nat (playerX (game (slot ?T')))" for u
          using that others [of u] unfolding stp by (simp add: g2f)
        have "pair_inv ps0 ?T' t P_X ?o P_O"
          unfolding stp using to D(2) D(3) p2t
          by (cases st) (simp_all add: pair_inv_def waiting_def tally_def notify_all_def)
        then show "if currentTurn (game (slot ?T')) = P_X
              then pair_inv ps0 ?T' (nat (playerO (game (slot ?T')))) P_O
                     (nat (playerX (game (slot ?T')))) P_X
              else pair_inv ps0 ?T' (nat (playerX (game (slot ?T')))) P_X
                     (nat (playerO (game (slot ?T')))) P_O"
          unfolding stp by (simp add: g2f)
      qed
      then show ?thesis ..
    next
      case pX: False
      note D = phase2D [OF ph pO pX]
      have "in_game (?L t)" using at by (simp add: in_game_def)
      then have "t = nat (playerO ?g) \<or> t = nat (playerX ?g)" using D(5) [of t] by blast
      moreover have "?L (nat (playerO ?g)) \<noteq> AtJoin \<and> ?L (nat (playerX ?g)) \<noteq> AtJoin"
        using D(6) by (auto dest: pair_inv_in_game split: if_splits)
      ultimately show ?thesis using at by auto
    qed
  qed
qed

lemma phase_step_wake:
  assumes base: "base_inv ps0 T" and nh: "\<not> halted (slot T)" and ph: "phase_inv ps0 T"
    and wt: "waiting (loc_of (slot T) t)"
  shows "halted (slot (step (t, rnd) T)) \<or> phase_inv ps0 (step (t, rnd) T)"
proof -
  let ?g = "game (slot T)" and ?L = "loc_of (slot T)" and ?p = "players T t"
  let ?T' = "step (t, rnd) T"
  have ok: "game_ok ?g (history (slot T))" using base by (simp add: base_inv_def)
  have ig: "in_game (?L t)" "?L t \<noteq> AtJoin" using wt by (auto simp add: waiting_def in_game_def)
  show ?thesis
  proof (cases "playerO ?g = - 1")
    case True
    from phase0D(2) [OF ph True, of t] ig show ?thesis by simp
  next
    case pO: False
    show ?thesis
    proof (cases "playerX ?g = - 1")
      case True
      let ?o = "nat (playerO ?g)"
      note D = phase1D [OF ph pO True]
      have to: "t = ?o" using D(4) [of t] ig by blast
      have seg: "segment (?L t) (int rnd) ?p ?g = (WaitPartner, False, ?p, ?g)"
        using D(2) True unfolding to by (simp add: segment_def JoinGame_wait_eq)
      note st = step_eq [OF nh seg]
      have "phase_inv ps0 ?T'"
      proof (rule phase1I)
        show "playerO (game (slot ?T')) \<noteq> - 1" "playerX (game (slot ?T')) = - 1"
          "0 \<le> playerO (game (slot ?T'))"
          "currentGameState (game (slot ?T')) = StillPlaying"
          "history (slot ?T') = []"
          "loc_of (slot ?T') (nat (playerO (game (slot ?T')))) = WaitPartner"
          "gameBoard (game (slot ?T')) = (\<lambda>row col. P_None)"
          "\<not> notified (slot ?T') (nat (playerO (game (slot ?T'))))"
          unfolding st using pO True D(1) D(2) D(5) D(6) D(7) to by (simp_all add: board_diff_same)
        show "tally (ps0 (nat (playerO (game (slot ?T')))))
                (players ?T' (nat (playerO (game (slot ?T'))))) P_O 0 0 0 0"
          unfolding st using D(3) to by simp
        show "\<not> in_game (loc_of (slot ?T') u) \<or> loc_of (slot ?T') u = AtJoin"
          if "u \<noteq> nat (playerO (game (slot ?T')))" for u
          using that D(4) [of u] to unfolding st by simp
      qed
      then show ?thesis ..
    next
      case pX: False
      let ?o = "nat (playerO ?g)" and ?x = "nat (playerX ?g)"
      note D = phase2D [OF ph pO pX]
      have tox: "t = ?o \<or> t = ?x" using D(5) [of t] ig by blast
      have turnXO: "currentTurn ?g = P_X \<or> currentTurn ?g = P_O"
        using ok by (simp add: game_ok_def roleAt_def)
      have fin: "halted (slot ?T') \<or> phase_inv ps0 ?T'"
        if pi: "pair_inv ps0 T m rm w rw" and mw: "m \<noteq> w" and turn: "currentTurn ?g = rw"
          and roles: "(rm = P_O \<and> rw = P_X) \<or> (rm = P_X \<and> rw = P_O)"
          and tmw: "t = m \<or> t = w"
          and names: "(rm = P_O \<and> m = ?o \<and> w = ?x) \<or> (rm = P_X \<and> m = ?x \<and> w = ?o)"
        for m rm w rw
      proof -
        note R = pair_step [OF pi mw turn roles nh pO pX tmw wt, of rnd]
        show ?thesis
        proof (cases "halted (slot ?T')")
          case True
          then show ?thesis ..
        next
          case False
          have Rc: "playerO (game (slot ?T')) = playerO ?g
          \<and> playerX (game (slot ?T')) = playerX ?g
          \<and> playerCount (game (slot ?T')) = playerCount ?g
          \<and> (\<forall>u. u \<noteq> t \<longrightarrow> loc_of (slot ?T') u = ?L u)
          \<and> in_game (loc_of (slot ?T') t)
          \<and> (if currentTurn (game (slot ?T')) = rw
              then currentTurn ?g = currentTurn (game (slot ?T'))
                   \<and> pair_inv ps0 ?T' m rm w rw
              else currentTurn (game (slot ?T')) = rm \<and> pair_inv ps0 ?T' w rw m rm)"
            using R False by (elim disjE) (simp, assumption)
          have R': "playerO (game (slot ?T')) = playerO ?g"
            "playerX (game (slot ?T')) = playerX ?g"
            "playerCount (game (slot ?T')) = playerCount ?g"
            "\<And>u. u \<noteq> t \<Longrightarrow> loc_of (slot ?T') u = ?L u"
            "in_game (loc_of (slot ?T') t)"
            "if currentTurn (game (slot ?T')) = rw
              then currentTurn ?g = currentTurn (game (slot ?T'))
                   \<and> pair_inv ps0 ?T' m rm w rw
              else currentTurn (game (slot ?T')) = rm \<and> pair_inv ps0 ?T' w rw m rm"
            using Rc by blast+
          have "phase_inv ps0 ?T'"
          proof (rule phase2I)
            show "playerO (game (slot ?T')) \<noteq> - 1" "playerX (game (slot ?T')) \<noteq> - 1"
              "0 \<le> playerO (game (slot ?T'))" "0 \<le> playerX (game (slot ?T'))"
              "nat (playerO (game (slot ?T'))) \<noteq> nat (playerX (game (slot ?T')))"
              "playerCount (game (slot ?T')) = 2"
              unfolding R'(1) R'(2) R'(3) using pO pX D(1-4) by simp_all
            show "\<not> in_game (loc_of (slot ?T') u)"
              if "u \<noteq> nat (playerO (game (slot ?T')))" "u \<noteq> nat (playerX (game (slot ?T')))" for u
            proof -
              have "u \<noteq> t" using that tox unfolding R'(1) R'(2) by auto
              then show ?thesis using D(5) [of u] that R'(4) [of u] unfolding R'(1) R'(2) by simp
            qed
            show "if currentTurn (game (slot ?T')) = P_X
              then pair_inv ps0 ?T' (nat (playerO (game (slot ?T')))) P_O
                     (nat (playerX (game (slot ?T')))) P_X
              else pair_inv ps0 ?T' (nat (playerX (game (slot ?T')))) P_X
                     (nat (playerO (game (slot ?T')))) P_O"
              unfolding R'(1) R'(2) using R'(6) roles names
              by (auto split: if_splits)
          qed
          then show ?thesis ..
        qed
      qed
      show ?thesis
      proof (cases "currentTurn ?g = P_X")
        case True
        then have "pair_inv ps0 T ?o P_O ?x P_X" using D(6) by simp
        from fin [OF this D(3) True] tox show ?thesis by simp
      next
        case False
        then have pi: "pair_inv ps0 T ?x P_X ?o P_O" using D(6) by simp
        have "currentTurn ?g = P_O" using False turnXO by simp
        from fin [OF pi D(3) [symmetric] this] tox show ?thesis by auto
      qed
    qed
  qed
qed

lemma phase_step:
  assumes base: "base_inv ps0 T" and nh: "\<not> halted (slot T)" and ph: "phase_inv ps0 T"
  shows "halted (slot (step (t, rnd) T)) \<or> phase_inv ps0 (step (t, rnd) T)"
proof (cases "loc_of (slot T) t")
  case AtScan
  then show ?thesis by (intro phase_step_idle [OF nh ph]) (simp add: in_game_def)
next
  case Skipped
  then show ?thesis by (intro phase_step_idle [OF nh ph]) (simp add: in_game_def)
next
  case AtJoin
  then show ?thesis by (rule phase_step_join [OF base nh ph])
next
  case WaitPartner
  then show ?thesis by (intro phase_step_wake [OF base nh ph]) (simp add: waiting_def)
next
  case WaitTurn
  then show ?thesis by (intro phase_step_wake [OF base nh ph]) (simp add: waiting_def)
next
  case Played
  then show ?thesis by (intro phase_step_idle [OF nh ph]) simp
next
  case Exited
  then show ?thesis by (intro phase_step_idle [OF nh ph]) simp
qed

lemma table_inv_step:
  assumes "table_inv ps0 T"
  shows "table_inv ps0 (step (t, rnd) T)"
proof -
  have base: "base_inv ps0 T" using assms by (simp add: table_inv_def)
  have b': "base_inv ps0 (step (t, rnd) T)" by (rule base_inv_step [OF base])
  show ?thesis
  proof (cases "halted (slot T)")
    case True
    then show ?thesis using assms by (simp add: step_halted)
  next
    case False
    then have "phase_inv ps0 T" using assms by (simp add: table_inv_def)
    from phase_step [OF base False this] b' show ?thesis by (simp add: table_inv_def)
  qed
qed

lemma table_inv_run:
  assumes "table_inv ps0 T"
  shows "table_inv ps0 (run schedule T)"
  using assms
proof (induction schedule arbitrary: T)
  case Nil
  then show ?case by (simp add: run_def)
next
  case (Cons tr schedule)
  obtain t rnd where tr: "tr = (t, rnd)" by (cases tr)
  have "table_inv ps0 (step tr T)" unfolding tr by (rule table_inv_step [OF Cons.prems])
  from Cons.IH [OF this] show ?case by (simp add: run_def)
qed

lemma table_inv_init:
  assumes "\<forall>t. id_p (ps0 t) = int t"
  shows "table_inv ps0 (initTable ps0 (initGame i))"
proof -
  have "phase_inv ps0 (initTable ps0 (initGame i))"
    by (rule phase0I) (simp_all add: initTable_def initSlot_def initGame_def in_game_def)
  then show ?thesis using base_inv_init [OF assms] by (simp add: table_inv_def)
qed

lemma count_inv_init: "count_inv (initTable ps (initGame i))"
  by (simp add: count_inv_def initTable_def initSlot_def initGame_def in_game_def)

lemma game_ok_init:
  "game_ok (game (slot (initTable ps (initGame i)))) (history (slot (initTable ps (initGame i))))"
  by (simp add: game_ok_def initTable_def initSlot_def initGame_def)

lemma reachable_inv:
  assumes "\<forall>t. id_p (ps t) = int t"
  shows "table_inv ps (run schedule (initTable ps (initGame i)))"
  by (rule table_inv_run [OF table_inv_init [OF assms]])

lemma step_scan:
  assumes "\<not> halted (slot T)" and "loc_of (slot T) t = AtScan"
  shows "loc_of (slot (step (t, rnd) T)) t
           = (if playerCount (game (slot T)) = 2 then Skipped else AtJoin)
       \<and> playerCount (game (slot (step (t, rnd) T)))
           = (if playerCount (game (slot T)) = 2 then 2 else playerCount (game (slot T)) + 1)"
  using assms by (simp add: step_def slot_step_def segment_def claimGame_def)

lemma PlayGame_loop_cases:
  assumes "PlayGame_loop rnd p g = (l, n, p', g')"
  shows "(currentGameState g = StillPlaying \<and> currentTurn g = type p
          \<and> p' = fst (snd (MakeAMove rnd p (g\<lparr>currentTurn := otherType (type p)\<rparr>)))
          \<and> g' = (snd (snd (MakeAMove rnd p (g\<lparr>currentTurn := otherType (type p)\<rparr>))))
                  \<lparr>currentGameState := fst (MakeAMove rnd p (g\<lparr>currentTurn := otherType (type p)\<rparr>))\<rparr>
          \<and> l = (if fst (MakeAMove rnd p (g\<lparr>currentTurn := otherType (type p)\<rparr>)) = StillPlaying
                 then WaitTurn else Played)
          \<and> n)
       \<or> (g' = g \<and> \<not> n \<and> (currentGameState g \<noteq> StillPlaying \<or> currentTurn g \<noteq> type p))"
proof (cases "currentGameState g = StillPlaying \<and> currentTurn g = type p")
  case True
  obtain st p2 g2 where mv: "MakeAMove rnd p (g\<lparr>currentTurn := otherType (type p)\<rparr>) = (st, p2, g2)"
    by (cases "MakeAMove rnd p (g\<lparr>currentTurn := otherType (type p)\<rparr>)")
  show ?thesis using assms True mv by (cases st) (auto simp add: PlayGame_loop_def)
next
  case False
  then show ?thesis using assms
    by (cases "currentGameState g") (auto simp add: PlayGame_loop_def split: if_splits)
qed

lemma last_marks:
  assumes "game_ok g h" and "currentGameState g = Won"
  shows "marks h \<noteq> [] \<and> last (marks h) = otherType (currentTurn g)"
proof -
  have ne: "h \<noteq> []" and turn: "currentTurn g = roleAt (length h)"
    and at: "\<forall>k < length h. marks h ! k = roleAt k"
    using assms by (simp_all add: game_ok_def)
  have len: "length (marks h) = length h" by (simp add: marks_def)
  have m: "marks h \<noteq> []" using ne by (simp add: marks_def)
  then have "last (marks h) = marks h ! (length h - 1)" using len by (simp add: last_conv_nth)
  also have "\<dots> = roleAt (length h - 1)" using at ne by simp
  also have "\<dots> = otherType (roleAt (length h))"
    using ne by (cases "length h") (auto simp add: roleAt_def otherType_def)
  finally show ?thesis using m turn by simp
qed

lemma step_over:
  assumes "currentGameState (game (slot T)) \<noteq> StillPlaying"
  shows "currentGameState (game (slot (step tr T))) = currentGameState (game (slot T))
       \<and> gameBoard (game (slot (step tr T))) = gameBoard (game (slot T))"
proof (cases "halted (slot T)")
  case True
  then show ?thesis by (simp add: step_halted)
next
  case False
  obtain t rnd where tr: "tr = (t, rnd)" by (cases tr)
  obtain l n p' g' where
    seg: "segment (loc_of (slot T) t) (int rnd) (players T t) (game (slot T)) = (l, n, p', g')"
    by (cases "segment (loc_of (slot T) t) (int rnd) (players T t) (game (slot T))") auto
  note st = step_eq [OF False seg]
  note sm = segment_summary [OF seg, of "history (slot T)"]
  show ?thesis unfolding tr st using sm assms by simp
qed

lemma MakeAMove_state:
  "fst (MakeAMove rnd p g) = Draw \<longleftrightarrow> possibleMoves g = []"
  by (cases "possibleMoves g = []") (simp_all add: MakeAMove_full MakeAMove_open)

lemma full_board_turn:
  assumes nh: "\<not> halted (slot T)" and ph: "phase_inv ps T"
    and ok: "game_ok (game (slot T)) (history (slot T))"
    and sp: "currentGameState (game (slot T)) = StillPlaying"
    and full: "possibleMoves (game (slot T)) = []"
  shows "runnable (slot T)
           (if currentTurn (game (slot T)) = P_X then nat (playerX (game (slot T)))
            else nat (playerO (game (slot T))))
       \<and> currentGameState (game (slot (step
             (if currentTurn (game (slot T)) = P_X then nat (playerX (game (slot T)))
              else nat (playerO (game (slot T))), r) T))) = Draw"
proof -
  let ?g = "game (slot T)" and ?L = "loc_of (slot T)"
  let ?o = "nat (playerO ?g)" and ?x = "nat (playerX ?g)"
  let ?w = "if currentTurn ?g = P_X then ?x else ?o"
  have ne: "gameBoard ?g \<noteq> (\<lambda>row col. P_None)"
  proof
    assume "gameBoard ?g = (\<lambda>row col. P_None)"
    then have "possibleMoves ?g \<noteq> []" by (simp add: possibleMoves_def)
    then show False using full by simp
  qed
  have pO: "playerO ?g \<noteq> - 1" using phase0D(5) [OF ph] ne by blast
  have pX: "playerX ?g \<noteq> - 1" using phase1D(7) [OF ph pO] ne by blast
  note D = phase2D [OF ph pO pX]
  have turnXO: "currentTurn ?g = P_X \<or> currentTurn ?g = P_O"
    using ok by (simp add: game_ok_def roleAt_def)
  have w: "waiting (?L ?w) \<and> notified (slot T) ?w \<and> type (players T ?w) = currentTurn ?g"
    using D(6) sp turnXO by (auto simp add: pair_inv_def tally_def split: if_splits)
  then have run: "runnable (slot T) ?w" using nh by (auto simp add: runnable_def waiting_def)
  have seg0: "segment (?L ?w) (int r) (players T ?w) ?g = PlayGame_woken (int r) (players T ?w) ?g"
    using w pO pX by (auto simp add: waiting_def segment_def JoinGame_wait_eq)
  let ?p = "players T ?w"
  have full1: "possibleMoves (?g\<lparr>currentTurn := otherType (type ?p)\<rparr>) = []"
    using full by (simp add: possibleMoves_def)
  have mv: "MakeAMove (int r) ?p (?g\<lparr>currentTurn := otherType (type ?p)\<rparr>)
              = (Draw, ?p\<lparr>drawCount := drawCount ?p + 1\<rparr>, ?g\<lparr>currentTurn := otherType (type ?p)\<rparr>)"
    by (rule MakeAMove_full [OF full1])
  have tn: "currentTurn ?g = type ?p" using w by simp
  note seg = PlayGame_woken_turn [OF sp tn mv]
  have "currentGameState (game (slot (step (?w, r) T))) = Draw"
    using step_eq [OF nh seg0 [unfolded seg]] by simp
  then show ?thesis using run by simp
qed

lemma first_move:
  assumes "0 \<le> rnd" and "gameBoard g = (\<lambda>row col. P_None)" and "type p \<noteq> P_None"
  shows "MakeAMove rnd p g
           = (StillPlaying, p, setCell (pickedRow rnd g) (pickedCol rnd g) (type p) g)"
proof -
  have ne: "possibleMoves g \<noteq> []" using assms(2) by (simp add: possibleMoves_def)
  have "\<not> DidWeWin (pickedRow rnd g) (pickedCol rnd g)
            (setCell (pickedRow rnd g) (pickedCol rnd g) (type p) g) p"
    using assms(2) assms(3) by (auto simp add: DidWeWin_iff setCell_def)
  then show ?thesis by (simp add: MakeAMove_open [OF ne])
qed

lemma resetGame_init: "resetGame g = initGame (gameNumber g - 1)"
  by (simp add: resetGame_def initGame_def)

lemma resetPlayer_init: "resetPlayer p = initPlayer (id_p p)"
  by (cases p) (simp add: resetPlayer_def initPlayer_def)

lemma pool_step_gun:
  "gunFlag (fold pool_step events pool) = (gunFlag pool \<or> Gun \<in> set events)"
proof (induction events arbitrary: pool)
  case Nil
  then show ?case by simp
next
  case (Cons ev events)
  then show ?case by (cases ev) (auto simp add: pool_step_def)
qed



section \<open>A round without games\<close>


lemma canRun_player:
  "canRun S (PlayerRuns t rnd) \<Longrightarrow> t < length (workerAt S)"
  "canRun S (PlayerRuns t rnd) = canRun S (PlayerRuns t 0)"
  by (simp_all add: canRun_def)




























section \<open>The sample games\<close>

lemmas model_defs =
  run_def step_def slot_step_def segment_def claimGame_def JoinGame_def JoinGame_wait_def
  JoinGame_return_def PlayGame_def PlayGame_loop_def PlayGame_woken_def MakeAMove_def
  possibleMoves_def setCell_def DidWeWin_def DidWeWin_body_def board_diff_def otherType_def
  initTable_def initSlot_def initGame_def initPlayer_def roster_def marks_def notify_all_def
  signed_modulo_int_def signed_divide_int_def Let_def

lemma wonGame_report:
  "report (run wonGame (initTable roster (initGame 0))) =
     ((Won, P_O, 2, 0, 1), [P_X, P_O, P_X, P_O, P_X], False,
      [(Played, False, P_O, 1, 0, 1, 0), (Played, False, P_X, 1, 1, 0, 0),
       (Skipped, False, P_None, 0, 0, 0, 0)])"
  by (simp add: report_def wonGame_def model_defs split del: if_split)

lemma wonGame_end:
  "gameNumber (game (slot (run wonGame (initTable roster (initGame 0))))) = 1"
  "id_p (players (run wonGame (initTable roster (initGame 0))) 0) = 0"
  "id_p (players (run wonGame (initTable roster (initGame 0))) 1) = 1"
  by (simp_all add: wonGame_def model_defs split del: if_split)

lemma drawnGame_report:
  "report (run drawnGame (initTable roster (initGame 0))) =
     ((Draw, P_X, 2, 0, 1), [P_X, P_O, P_X, P_O, P_X, P_O, P_X, P_O, P_X], False,
      [(Played, False, P_O, 1, 0, 0, 1), (Played, False, P_X, 1, 0, 0, 1),
       (AtScan, False, P_None, 0, 0, 0, 0)])"
  by (simp add: report_def drawnGame_def model_defs split del: if_split)

lemma threeScans_report:
  "report (run threeScans (initTable roster (initGame 0))) =
     ((StillPlaying, P_X, 2, - 1, - 1), [], False,
      [(AtJoin, False, P_None, 0, 0, 0, 0), (AtJoin, False, P_None, 0, 0, 0, 0),
       (Skipped, False, P_None, 0, 0, 0, 0)])"
  "report (run (take 2 threeScans) (initTable roster (initGame 0))) =
     ((StillPlaying, P_X, 2, - 1, - 1), [], False,
      [(AtJoin, False, P_None, 0, 0, 0, 0), (AtJoin, False, P_None, 0, 0, 0, 0),
       (AtScan, False, P_None, 0, 0, 0, 0)])"
  by (simp_all add: report_def threeScans_def model_defs split del: if_split)

lemma nearWin_turn:
  "PlayGame_loop 0 (playerAs 1 P_X) nearWin
     = (Played, True, (playerAs 1 P_X)\<lparr>winCount := 1\<rparr>,
        (setCell 0 2 P_X nearWin)\<lparr>currentTurn := P_O, currentGameState := Won\<rparr>)"
  by (simp add: nearWin_def boardOf_def playerAs_def model_defs split del: if_split)

lemma twoClaims_report:
  "report (run twoClaims (initTable roster (initGame 0))) =
     ((StillPlaying, P_X, 2, - 1, - 1), [], False,
      [(AtJoin, False, P_None, 0, 0, 0, 0), (AtJoin, False, P_None, 0, 0, 0, 0),
       (AtScan, False, P_None, 0, 0, 0, 0)])"
  by (simp add: report_def twoClaims_def model_defs split del: if_split)

lemma oneJoined_report:
  "report (run oneJoined (initTable roster (initGame 0))) =
     ((StillPlaying, P_X, 2, 0, - 1), [], False,
      [(WaitPartner, False, P_O, 0, 0, 0, 0), (AtJoin, False, P_None, 0, 0, 0, 0),
       (AtScan, False, P_None, 0, 0, 0, 0)])"
  by (simp add: report_def oneJoined_def model_defs split del: if_split)

lemma boardFull_report:
  "report (run boardFull (initTable roster (initGame 0))) =
     ((StillPlaying, P_O, 2, 0, 1), [P_X, P_O, P_X, P_O, P_X, P_O, P_X, P_O, P_X], False,
      [(WaitTurn, True, P_O, 0, 0, 0, 0), (WaitTurn, False, P_X, 0, 0, 0, 0),
       (AtScan, False, P_None, 0, 0, 0, 0)])"
  by (simp add: report_def boardFull_def model_defs split del: if_split)

lemma boardFull_moves:
  "possibleMoves (game (slot (run boardFull (initTable roster (initGame 0))))) = []"
  by (simp add: boardFull_def model_defs split del: if_split)






section \<open>Claims about the board and one move\<close>

text \<open>
  Claim C3. For every board, every cell \<open>(row, col)\<close> of the board and every mark,
  \<open>DidWeWin\<close> returns true if and only if row \<open>row\<close> is entirely that mark, or column
  \<open>col\<close> is, or the main diagonal is, or the anti-diagonal is: both diagonals are
  looked at on every call, whether or not \<open>(row, col)\<close> lies on one. In particular, on a
  board whose row 0 is X, X, X, the call for the cell (0, 2) and the mark X returns true.
\<close>

theorem C3_DidWeWin_row_column_both_diagonals:
  assumes "row \<in> {0, 1, 2}" and "col \<in> {0, 1, 2}"
  shows "(DidWeWin row col g p \<longleftrightarrow>
            (\<forall>i \<in> {0, 1, 2}. gameBoard g row i = type p)
          \<or> (\<forall>i \<in> {0, 1, 2}. gameBoard g i col = type p)
          \<or> (\<forall>i \<in> {0, 1, 2}. gameBoard g i i = type p)
          \<or> (\<forall>i \<in> {0, 1, 2}. gameBoard g (2 - i) i = type p))
       \<and> ((\<forall>i \<in> {0, 1, 2}. gameBoard g 0 i = P_X) \<and> type p = P_X \<longrightarrow> DidWeWin 0 2 g p)"
  by (simp add: DidWeWin_iff)

text \<open>
  The theorem at three boards: row 0 full of X; the anti-diagonal full of O, asked at the
  cell (0, 1), which is on no diagonal; and that anti-diagonal broken in the middle.
\<close>

theorem C3_witness:
  "DidWeWin 0 2 (boardOf [(0, 0, P_X), (0, 1, P_X), (0, 2, P_X)]) (playerAs 0 P_X)
   \<and> DidWeWin 0 1 (boardOf [(2, 0, P_O), (1, 1, P_O), (0, 2, P_O)]) (playerAs 1 P_O)
   \<and> \<not> DidWeWin 0 1 (boardOf [(2, 0, P_O), (1, 1, P_X), (0, 2, P_O)]) (playerAs 1 P_O)"
  using C3_DidWeWin_row_column_both_diagonals
          [of 0 2 "boardOf [(0, 0, P_X), (0, 1, P_X), (0, 2, P_X)]" "playerAs 0 P_X"]
        C3_DidWeWin_row_column_both_diagonals
          [of 0 1 "boardOf [(2, 0, P_O), (1, 1, P_O), (0, 2, P_O)]" "playerAs 1 P_O"]
        C3_DidWeWin_row_column_both_diagonals
          [of 0 1 "boardOf [(2, 0, P_O), (1, 1, P_X), (0, 2, P_O)]" "playerAs 1 P_O"]
  by (simp add: boardOf_def playerAs_def setCell_def initGame_def initPlayer_def)

text \<open>
  Claim C9. A call of \<open>MakeAMove\<close> writes at most one cell of the board. The cell it
  writes held \<open>PlayerType::None\<close> just before, a cell that holds a mark is never written
  again, and the row and the column computed at lines 215-216 are 0, 1 or 2. The source
  has no check of the cell before the write of line 217: what is proved is that such a
  check could never fail.
\<close>

theorem C9_MakeAMove_writes_one_empty_cell:
  assumes "0 \<le> rnd" and "MakeAMove rnd p g = (state, p', g')"
  shows "(possibleMoves g = [] \<longrightarrow> g' = g)
       \<and> (possibleMoves g \<noteq> [] \<longrightarrow>
            pickedRow rnd g \<in> {0, 1, 2} \<and> pickedCol rnd g \<in> {0, 1, 2}
            \<and> gameBoard g (pickedRow rnd g) (pickedCol rnd g) = P_None
            \<and> g' = setCell (pickedRow rnd g) (pickedCol rnd g) (type p) g)
       \<and> (\<forall>row col. gameBoard g' row col \<noteq> gameBoard g row col \<longrightarrow>
            row = pickedRow rnd g \<and> col = pickedCol rnd g
            \<and> gameBoard g row col = P_None
            \<and> gameBoard g' row col = type p \<and> gameBoard g' row col \<in> {P_X, P_O})
       \<and> (\<forall>row col. gameBoard g row col \<noteq> P_None \<longrightarrow> gameBoard g' row col = gameBoard g row col)
       \<and> length (board_diff (gameBoard g) (gameBoard g')) \<le> 1"
proof (cases "possibleMoves g = []")
  case True
  then have "g' = g" using assms(2) by (simp add: MakeAMove_full)
  then show ?thesis using True by (simp add: board_diff_same)
next
  case False
  let ?row = "pickedRow rnd g" and ?col = "pickedCol rnd g"
  have cell: "?row \<in> {0, 1, 2}" "?col \<in> {0, 1, 2}" "gameBoard g ?row ?col = P_None"
    using picked_cell [OF assms(1) False] by simp_all
  have g': "g' = setCell ?row ?col (type p) g"
    using assms(2) False by (auto simp add: MakeAMove_open split: if_splits)
  have changed: "row = ?row \<and> col = ?col \<and> gameBoard g row col = P_None
                 \<and> gameBoard g' row col = type p \<and> gameBoard g' row col \<in> {P_X, P_O}"
    if "gameBoard g' row col \<noteq> gameBoard g row col" for row col
  proof -
    have eq: "(row, col) = (?row, ?col)"
      using that setCell_other [of row col ?row ?col "type p" g] unfolding g' by blast
    then have "gameBoard g' row col = type p" unfolding g' by (simp add: setCell_same)
    moreover have "gameBoard g row col = P_None" using eq cell(3) by simp
    ultimately show ?thesis using eq that by (cases "type p") simp_all
  qed
  have kept: "gameBoard g' row col = gameBoard g row col"
    if "gameBoard g row col \<noteq> P_None" for row col
    using that changed [of row col] by blast
  have "length (board_diff (gameBoard g) (gameBoard g')) \<le> 1"
    unfolding g' by (rule board_diff_length_setCell)
  then show ?thesis using False cell g' changed kept by blast
qed

text \<open>The theorem at a board with two marks and the random number 7.\<close>

theorem C9_witness:
  "MakeAMove 7 (playerAs 0 P_X) (boardOf [(0, 0, P_X), (1, 1, P_O)])
     = (StillPlaying, playerAs 0 P_X, boardOf [(0, 0, P_X), (1, 1, P_O), (0, 1, P_X)])
   \<and> pickedRow 7 (boardOf [(0, 0, P_X), (1, 1, P_O)]) = 0
   \<and> pickedCol 7 (boardOf [(0, 0, P_X), (1, 1, P_O)]) = 1
   \<and> gameBoard (boardOf [(0, 0, P_X), (1, 1, P_O)]) 0 1 = P_None
   \<and> length (board_diff (gameBoard (boardOf [(0, 0, P_X), (1, 1, P_O)]))
        (gameBoard (boardOf [(0, 0, P_X), (1, 1, P_O), (0, 1, P_X)]))) \<le> 1"
proof -
  have rnd: "(0::int) \<le> 7" by simp
  have row: "pickedRow 7 (boardOf [(0, 0, P_X), (1, 1, P_O)]) = 0"
    by (simp add: pickedRow_def sample_moves signed_modulo_int_def signed_divide_int_def)
  have col: "pickedCol 7 (boardOf [(0, 0, P_X), (1, 1, P_O)]) = 1"
    by (simp add: pickedCol_def sample_moves signed_modulo_int_def signed_divide_int_def)
  have won: "\<not> DidWeWin 0 1 (boardOf [(0, 0, P_X), (1, 1, P_O), (0, 1, P_X)]) (playerAs 0 P_X)"
    by (simp add: DidWeWin_iff boardOf_def setCell_def initGame_def playerAs_def initPlayer_def)
  have next_board: "setCell 0 1 P_X (boardOf [(0, 0, P_X), (1, 1, P_O)])
          = boardOf [(0, 0, P_X), (1, 1, P_O), (0, 1, P_X)]"
    by (simp add: boardOf_def)
  have move: "MakeAMove 7 (playerAs 0 P_X) (boardOf [(0, 0, P_X), (1, 1, P_O)])
     = (StillPlaying, playerAs 0 P_X, boardOf [(0, 0, P_X), (1, 1, P_O), (0, 1, P_X)])"
    using won by (simp add: MakeAMove_open sample_moves row col next_board playerAs_def)
  note c = C9_MakeAMove_writes_one_empty_cell [OF rnd move]
  have one: "length (board_diff (gameBoard (boardOf [(0, 0, P_X), (1, 1, P_O)]))
        (gameBoard (boardOf [(0, 0, P_X), (1, 1, P_O), (0, 1, P_X)]))) \<le> 1"
    by (rule c [THEN conjunct2, THEN conjunct2, THEN conjunct2, THEN conjunct2])
  have "possibleMoves (boardOf [(0, 0, P_X), (1, 1, P_O)]) \<noteq> []"
    by (simp add: sample_moves)
  from c [THEN conjunct2, THEN conjunct1, rule_format, OF this]
  have empty: "gameBoard (boardOf [(0, 0, P_X), (1, 1, P_O)]) 0 1 = P_None"
    by (simp only: row col)
  show ?thesis
    by (intro conjI) (rule move, rule row, rule col, rule empty, rule one)
qed

section \<open>Claims about the threads of a game\<close>

text \<open>
  Claim C2. For every game, the claim of lines 355-365 increments the occupancy
  \<open>playerCount\<close> only when it is below 2 and succeeds exactly then, so that along every
  schedule of any number of threads the occupancy stays between 0 and 2 and is the number
  of threads whose claim succeeded: at most two claims on a game ever succeed. The source
  tests \<open>playerCount == 2\<close>; on the occupancies that are reached (0, 1 and 2) this is the
  test \<open>playerCount < 2\<close> of the claim.
\<close>

theorem C2_occupancy_never_exceeds_two:
  "let T = run schedule (initTable ps (initGame i)); g = game (slot T) in
     0 \<le> playerCount g \<and> playerCount g \<le> 2
     \<and> finite {t. in_game (loc_of (slot T) t)}
     \<and> int (card {t. in_game (loc_of (slot T) t)}) = playerCount g
     \<and> claimGame g
         = (playerCount g < 2, if playerCount g < 2 then g\<lparr>playerCount := playerCount g + 1\<rparr> else g)
     \<and> (\<forall>t rnd. \<not> halted (slot T) \<and> loc_of (slot T) t = AtScan \<longrightarrow>
           loc_of (slot (step (t, rnd) T)) t = (if playerCount g < 2 then AtJoin else Skipped)
           \<and> playerCount (game (slot (step (t, rnd) T)))
               = (if playerCount g < 2 then playerCount g + 1 else playerCount g))"
proof -
  let ?T = "run schedule (initTable ps (initGame i))"
  have inv: "count_inv ?T" by (rule count_inv_run [OF count_inv_init])
  then have rng: "0 \<le> playerCount (game (slot ?T))" "playerCount (game (slot ?T)) \<le> 2"
    and fin: "finite {t. in_game (loc_of (slot ?T) t)}"
    and crd: "int (card {t. in_game (loc_of (slot ?T) t)}) = playerCount (game (slot ?T))"
    by (simp_all add: count_inv_def)
  have eq2: "playerCount (game (slot ?T)) = 2 \<longleftrightarrow> \<not> playerCount (game (slot ?T)) < 2"
    using rng by auto
  have cl: "claimGame (game (slot ?T))
         = (playerCount (game (slot ?T)) < 2,
            if playerCount (game (slot ?T)) < 2
            then (game (slot ?T))\<lparr>playerCount := playerCount (game (slot ?T)) + 1\<rparr>
            else game (slot ?T))"
    using eq2 by (simp add: claimGame_def)
  have sc: "loc_of (slot (step (t, rnd) ?T)) t
              = (if playerCount (game (slot ?T)) < 2 then AtJoin else Skipped)
           \<and> playerCount (game (slot (step (t, rnd) ?T)))
               = (if playerCount (game (slot ?T)) < 2 then playerCount (game (slot ?T)) + 1
                  else playerCount (game (slot ?T)))"
    if "\<not> halted (slot ?T) \<and> loc_of (slot ?T) t = AtScan" for t rnd
    using step_scan [of ?T t rnd] that eq2 by auto
  show ?thesis unfolding Let_def using rng fin crd cl sc by blast
qed

text \<open>The theorem after three threads have scanned the game: two are in, the third skipped it.\<close>

theorem C2_witness:
  "playerCount (game (slot (run threeScans (initTable roster (initGame 0))))) = 2
   \<and> loc_of (slot (run threeScans (initTable roster (initGame 0)))) 2 = Skipped
   \<and> card {t. in_game (loc_of (slot (run threeScans (initTable roster (initGame 0)))) t)} = 2
   \<and> fst (claimGame (game (slot (run threeScans (initTable roster (initGame 0)))))) = False"
proof -
  let ?T = "run threeScans (initTable roster (initGame 0))"
  note c = C2_occupancy_never_exceeds_two [of threeScans roster 0, unfolded Let_def]
  have r: "playerCount (game (slot ?T)) = 2" "loc_of (slot ?T) 2 = Skipped"
    using threeScans_report(1) by (simp_all add: report_def)
  have "int (card {t. in_game (loc_of (slot ?T) t)}) = playerCount (game (slot ?T))"
    using c by blast
  then have crd: "card {t. in_game (loc_of (slot ?T) t)} = 2" using r(1) by simp
  have "claimGame (game (slot ?T))
         = (playerCount (game (slot ?T)) < 2,
            if playerCount (game (slot ?T)) < 2
            then (game (slot ?T))\<lparr>playerCount := playerCount (game (slot ?T)) + 1\<rparr>
            else game (slot ?T))"
    using c by blast
  then have "fst (claimGame (game (slot ?T))) = False" using r(1) by simp
  then show ?thesis using r crd by simp
qed

text \<open>
  Claim C4. In every turn of play \<open>currentTurn\<close> is flipped to the other role before the
  move is placed and its outcome evaluated: \<open>MakeAMove\<close> runs on the game with the turn
  already flipped and never touches the turn, and the state it returns is stored after.
  So after a turn that ends the game as \<open>Won\<close> or \<open>Draw\<close>, \<open>currentTurn\<close> points at
  the role that did not move.
\<close>

theorem C4_turn_flips_before_the_move:
  assumes "0 \<le> rnd"
    and "currentGameState g = StillPlaying" and "currentTurn g = type p"
    and "type p = P_X \<or> type p = P_O"
    and "PlayGame_loop rnd p g = (l, n, p', g')"
  shows "let g1 = g\<lparr>currentTurn := otherType (type p)\<rparr> in
           currentTurn g1 \<noteq> type p \<and> (currentTurn g1 = P_X \<or> currentTurn g1 = P_O)
           \<and> gameBoard g1 = gameBoard g \<and> currentGameState g1 = StillPlaying
           \<and> p' = fst (snd (MakeAMove rnd p g1))
           \<and> g' = (snd (snd (MakeAMove rnd p g1)))\<lparr>currentGameState := fst (MakeAMove rnd p g1)\<rparr>
           \<and> currentTurn g' = currentTurn g1
           \<and> type p' = type p
           \<and> (currentGameState g' = Won \<or> currentGameState g' = Draw \<longrightarrow>
                l = Played \<and> currentTurn g' = otherType (type p') \<and> currentTurn g' \<noteq> type p')"
proof -
  let ?g1 = "g\<lparr>currentTurn := otherType (type p)\<rparr>"
  obtain st p2 g2 where mv: "MakeAMove rnd p ?g1 = (st, p2, g2)"
    by (cases "MakeAMove rnd p ?g1")
  note f = MakeAMove_frame [OF mv]
  from PlayGame_loop_cases [OF assms(5)] assms(2) assms(3)
  have r: "p' = p2" "g' = g2\<lparr>currentGameState := st\<rparr>"
    "l = (if st = StillPlaying then WaitTurn else Played)"
    unfolding mv by auto
  have flip: "currentTurn ?g1 \<noteq> type p" "currentTurn ?g1 = P_X \<or> currentTurn ?g1 = P_O"
    using assms(4) by (auto simp add: otherType_def)
  have "currentTurn g' = currentTurn ?g1" "type p' = type p" using f r by simp_all
  moreover have "l = Played" if "currentGameState g' = Won \<or> currentGameState g' = Draw"
    using that r by auto
  ultimately show ?thesis
    unfolding Let_def using flip r assms(2) mv by auto
qed

text \<open>The theorem at the winning move of X on \<open>nearWin\<close>.\<close>

theorem C4_witness:
  "currentTurn nearWin = P_X
   \<and> PlayGame_loop 0 (playerAs 1 P_X) nearWin
       = (Played, True, (playerAs 1 P_X)\<lparr>winCount := 1\<rparr>,
          (setCell 0 2 P_X nearWin)\<lparr>currentTurn := P_O, currentGameState := Won\<rparr>)
   \<and> currentTurn ((setCell 0 2 P_X nearWin)\<lparr>currentTurn := P_O, currentGameState := Won\<rparr>)
       = otherType (type ((playerAs 1 P_X)\<lparr>winCount := 1\<rparr>))
   \<and> currentTurn (nearWin\<lparr>currentTurn := otherType (type (playerAs 1 P_X))\<rparr>) = P_O
   \<and> gameBoard (nearWin\<lparr>currentTurn := otherType (type (playerAs 1 P_X))\<rparr>) 0 2 = P_None"
proof -
  have h: "(0::int) \<le> 0" "currentGameState nearWin = StillPlaying"
    "currentTurn nearWin = type (playerAs 1 P_X)"
    "type (playerAs 1 P_X) = P_X \<or> type (playerAs 1 P_X) = P_O"
    by (simp_all add: nearWin_def boardOf_def playerAs_def setCell_def initGame_def initPlayer_def)
  note c = C4_turn_flips_before_the_move [OF h nearWin_turn, unfolded Let_def]
  have won: "currentGameState ((setCell 0 2 P_X nearWin)\<lparr>currentTurn := P_O, currentGameState := Won\<rparr>) = Won"
    by simp
  from c won have 1: "currentTurn ((setCell 0 2 P_X nearWin)\<lparr>currentTurn := P_O, currentGameState := Won\<rparr>)
       = otherType (type ((playerAs 1 P_X)\<lparr>winCount := 1\<rparr>))"
    by blast
  have 2: "currentTurn (nearWin\<lparr>currentTurn := otherType (type (playerAs 1 P_X))\<rparr>) = P_O"
    "gameBoard (nearWin\<lparr>currentTurn := otherType (type (playerAs 1 P_X))\<rparr>) 0 2 = P_None"
    "currentTurn nearWin = P_X"
    by (simp_all add: nearWin_def boardOf_def playerAs_def setCell_def initGame_def initPlayer_def
          otherType_def)
  from nearWin_turn 1 2 show ?thesis by blast
qed

text \<open>
  Claim C5. In the sequence of marks placed on the board of a game the roles alternate
  strictly and the first mark is X: \<open>currentTurn\<close> is initialised to X, a pass of the
  loop of \<open>PlayGame\<close> with \<open>currentTurn\<close> different from the role of the player exits,
  and a pass that changes the board started with \<open>currentTurn\<close> equal to that role and
  flipped it.
\<close>

theorem C5_marks_alternate_from_X:
  "let T = run schedule (initTable ps (initGame i)); ms = marks (history (slot T)) in
     currentTurn (initGame i) = P_X
     \<and> (ms \<noteq> [] \<longrightarrow> hd ms = P_X)
     \<and> (\<forall>k. k < length ms \<longrightarrow> ms ! k = roleAt k)
     \<and> (\<forall>k. Suc k < length ms \<longrightarrow> ms ! Suc k = otherType (ms ! k) \<and> ms ! Suc k \<noteq> ms ! k)
     \<and> (\<forall>p g rnd. currentGameState g = StillPlaying \<and> currentTurn g \<noteq> type p \<longrightarrow>
           PlayGame_loop rnd p g = (Exited, False, p, g))
     \<and> (\<forall>p g rnd l n p' g'. PlayGame_loop rnd p g = (l, n, p', g') \<and> gameBoard g' \<noteq> gameBoard g \<longrightarrow>
           currentTurn g = type p \<and> currentTurn g' = otherType (type p))"
proof -
  let ?T = "run schedule (initTable ps (initGame i))"
  let ?ms = "marks (history (slot ?T))"
  have ok: "game_ok (game (slot ?T)) (history (slot ?T))"
    by (rule game_ok_run [OF game_ok_init])
  have len: "length ?ms = length (history (slot ?T))" by (simp add: marks_def)
  have at: "?ms ! k = roleAt k" if "k < length ?ms" for k
    using ok that len by (simp add: game_ok_def)
  have first: "hd ?ms = P_X" if "?ms \<noteq> []"
  proof -
    have "hd ?ms = ?ms ! 0" using that by (simp add: hd_conv_nth)
    also have "\<dots> = roleAt 0" using that by (intro at) simp
    finally show ?thesis by simp
  qed
  have alt: "?ms ! Suc k = otherType (?ms ! k) \<and> ?ms ! Suc k \<noteq> ?ms ! k" if "Suc k < length ?ms" for k
  proof -
    have "?ms ! Suc k = roleAt (Suc k)" "?ms ! k = roleAt k" using that by (simp_all add: at)
    then show ?thesis by (simp add: roleAt_def otherType_def)
  qed
  have guard: "PlayGame_loop rnd p g = (Exited, False, p, g)"
    if "currentGameState g = StillPlaying \<and> currentTurn g \<noteq> type p" for p g rnd
    using that by (simp add: PlayGame_loop_def)
  have mover: "currentTurn g = type p \<and> currentTurn g' = otherType (type p)"
    if "PlayGame_loop rnd p g = (l, n, p', g') \<and> gameBoard g' \<noteq> gameBoard g"
    for p g rnd l n p' g'
  proof -
    from that have pl: "PlayGame_loop rnd p g = (l, n, p', g')" and ch: "gameBoard g' \<noteq> gameBoard g"
      by simp_all
    obtain st p2 g2 where mv: "MakeAMove rnd p (g\<lparr>currentTurn := otherType (type p)\<rparr>) = (st, p2, g2)"
      by (cases "MakeAMove rnd p (g\<lparr>currentTurn := otherType (type p)\<rparr>)")
    from PlayGame_loop_cases [OF pl] ch have
      "currentTurn g = type p" "g' = g2\<lparr>currentGameState := st\<rparr>"
      unfolding mv by auto
    moreover have "currentTurn g2 = otherType (type p)" using MakeAMove_frame [OF mv] by simp
    ultimately show ?thesis by simp
  qed
  have init: "currentTurn (initGame i) = P_X" by (simp add: initGame_def)
  show ?thesis unfolding Let_def using init first at alt guard mover by blast
qed

text \<open>The theorem at the five marks of \<open>wonGame\<close>.\<close>

theorem C5_witness:
  "marks (history (slot (run wonGame (initTable roster (initGame 0))))) = [P_X, P_O, P_X, P_O, P_X]
   \<and> hd (marks (history (slot (run wonGame (initTable roster (initGame 0)))))) = P_X
   \<and> marks (history (slot (run wonGame (initTable roster (initGame 0))))) ! 3 = roleAt 3"
proof -
  let ?ms = "marks (history (slot (run wonGame (initTable roster (initGame 0)))))"
  note c = C5_marks_alternate_from_X [of wonGame roster 0, unfolded Let_def]
  have ms: "?ms = [P_X, P_O, P_X, P_O, P_X]" using wonGame_report by (simp add: report_def)
  then have ne: "?ms \<noteq> []" and l3: "3 < length ?ms" by simp_all
  have "hd ?ms = P_X" using c ne by blast
  moreover have "?ms ! 3 = roleAt 3" using c l3 by blast
  ultimately show ?thesis using ms by simp
qed

text \<open>
  Claim C7. In a completed game (both players have returned from \<open>JoinGame\<close> and no thread
  has called \<open>exit(1)\<close>) the player whose move won, the one \<open>currentTurn\<close> does not point
  at and whose role is the last mark placed, has its \<open>winCount\<close> greater by exactly 1; the
  other player, who found the game over when it was woken, has its \<open>loseCount\<close> greater by
  exactly 1; in a draw both have their \<open>drawCount\<close> greater by exactly 1. Each has
  \<open>gamesPlayed\<close> greater by 1 and no other counter changed, the players of the other
  threads are untouched, and the path of lines 295-304 never changes \<open>winCount\<close>.
\<close>

theorem C7_counters_of_a_completed_game:
  assumes ids: "\<forall>t. id_p (ps t) = int t"
    and T: "T = run schedule (initTable ps (initGame i))"
    and nh: "\<not> halted (slot T)"
    and doneO: "loc_of (slot T) (nat (playerO (game (slot T)))) = Played"
    and doneX: "loc_of (slot T) (nat (playerX (game (slot T)))) = Played"
  shows "let g = game (slot T); tO = nat (playerO g); tX = nat (playerX g);
             m = (if currentTurn g = P_X then tO else tX);
             w = (if currentTurn g = P_X then tX else tO)
         in playerO g = int tO \<and> playerX g = int tX \<and> tO \<noteq> tX
            \<and> type (players T tO) = P_O \<and> type (players T tX) = P_X
            \<and> (currentGameState g = Won \<or> currentGameState g = Draw)
            \<and> (currentGameState g = Won \<longrightarrow>
                  marks (history (slot T)) \<noteq> []
                  \<and> last (marks (history (slot T))) = type (players T m)
                  \<and> tally (ps m) (players T m) (type (players T m)) 1 1 0 0
                  \<and> tally (ps w) (players T w) (type (players T w)) 1 0 1 0)
            \<and> (currentGameState g = Draw \<longrightarrow>
                  tally (ps m) (players T m) (type (players T m)) 1 0 0 1
                  \<and> tally (ps w) (players T w) (type (players T w)) 1 0 0 1)
            \<and> (\<forall>t. t \<noteq> tO \<and> t \<noteq> tX \<longrightarrow> players T t = ps t)
            \<and> (\<forall>rnd p g0. currentGameState g0 \<noteq> StillPlaying \<longrightarrow>
                  winCount (fst (snd (snd (PlayGame_loop rnd p g0)))) = winCount p)"
proof -
  let ?g = "game (slot T)" and ?L = "loc_of (slot T)"
  let ?o = "nat (playerO ?g)" and ?x = "nat (playerX ?g)"
  have inv: "table_inv ps T" unfolding T by (rule reachable_inv [OF ids])
  then have base: "base_inv ps T" and ph: "phase_inv ps T"
    using nh by (simp_all add: table_inv_def)
  have ok: "game_ok ?g (history (slot T))" using base by (simp add: base_inv_def)
  have fresh: "\<forall>t. ?L t = AtScan \<or> ?L t = Skipped \<or> ?L t = AtJoin \<longrightarrow> players T t = ps t"
    using base by (simp add: base_inv_def)
  have pO: "playerO ?g \<noteq> - 1"
  proof
    assume "playerO ?g = - 1"
    from phase0D(2) [OF ph this, of ?o] doneO show False by (simp add: in_game_def)
  qed
  have pX: "playerX ?g \<noteq> - 1"
  proof
    assume "playerX ?g = - 1"
    from phase1D(2) [OF ph pO this] doneO show False by simp
  qed
  note D = phase2D [OF ph pO pX]
  have over: "currentGameState ?g \<noteq> StillPlaying"
    using base doneO by (auto simp add: base_inv_def)
  have others: "players T t = ps t" if "t \<noteq> ?o \<and> t \<noteq> ?x" for t
  proof -
    have "\<not> in_game (?L t)" using D(5) [of t] that by simp
    then show ?thesis using fresh by (auto simp add: in_game_def)
  qed
  have loser: "winCount (fst (snd (snd (PlayGame_loop rnd p g0)))) = winCount p"
    if "currentGameState g0 \<noteq> StillPlaying" for rnd p g0
    using that by (cases "currentGameState g0") (simp_all add: PlayGame_loop_def)
  have turnXO: "currentTurn ?g = P_X \<or> currentTurn ?g = P_O"
    using ok by (simp add: game_ok_def roleAt_def)
  have main: "type (players T m) = rm \<and> type (players T w) = rw
       \<and> (currentGameState ?g = Won \<longrightarrow>
            tally (ps m) (players T m) rm 1 1 0 0 \<and> tally (ps w) (players T w) rw 1 0 1 0)
       \<and> (currentGameState ?g = Draw \<longrightarrow>
            tally (ps m) (players T m) rm 1 0 0 1 \<and> tally (ps w) (players T w) rw 1 0 0 1)"
    if "pair_inv ps T m rm w rw" "?L w = Played" for m rm w rw
    using that over
    by (cases "currentGameState ?g") (auto simp add: pair_inv_def tally_def)
  have lm: "marks (history (slot T)) \<noteq> []
            \<and> last (marks (history (slot T))) = otherType (currentTurn ?g)"
    if "currentGameState ?g = Won"
    by (rule last_marks [OF ok that])
  have st: "currentGameState ?g = Won \<or> currentGameState ?g = Draw"
    using over by (cases "currentGameState ?g") simp_all
  show ?thesis
  proof (cases "currentTurn ?g = P_X")
    case True
    then have "pair_inv ps T ?o P_O ?x P_X" using D(6) by simp
    from main [OF this doneX] D(1-3) others loser lm st True
    show ?thesis unfolding Let_def by (auto simp add: otherType_def)
  next
    case False
    then have pi: "pair_inv ps T ?x P_X ?o P_O" using D(6) by simp
    have "currentTurn ?g = P_O" using False turnXO by simp
    with main [OF pi doneO] D(1-3) others loser lm st False
    show ?thesis unfolding Let_def by (auto simp add: otherType_def)
  qed
qed

text \<open>
  The theorem at the end of \<open>wonGame\<close>, where thread 1 (X) has won and thread 0 (O) has
  lost, and at the end of \<open>drawnGame\<close>.
\<close>

theorem C7_witness:
  "tally (roster 1) (players (run wonGame (initTable roster (initGame 0))) 1) P_X 1 1 0 0
   \<and> tally (roster 0) (players (run wonGame (initTable roster (initGame 0))) 0) P_O 1 0 1 0
   \<and> last (marks (history (slot (run wonGame (initTable roster (initGame 0)))))) = P_X
   \<and> players (run wonGame (initTable roster (initGame 0))) 2 = roster 2
   \<and> winCount (players (run wonGame (initTable roster (initGame 0))) 1) = 1
   \<and> loseCount (players (run wonGame (initTable roster (initGame 0))) 0) = 1
   \<and> tally (roster 0) (players (run drawnGame (initTable roster (initGame 0))) 0) P_O 1 0 0 1
   \<and> tally (roster 1) (players (run drawnGame (initTable roster (initGame 0))) 1) P_X 1 0 0 1"
proof -
  let ?T = "run wonGame (initTable roster (initGame 0))"
  let ?D = "run drawnGame (initTable roster (initGame 0))"
  have ids: "\<forall>t. id_p (roster t) = int t" by (simp add: roster_def initPlayer_def)
  have r: "currentGameState (game (slot ?T)) = Won" "currentTurn (game (slot ?T)) = P_O"
    "playerO (game (slot ?T)) = 0" "playerX (game (slot ?T)) = 1"
    "\<not> halted (slot ?T)" "loc_of (slot ?T) 0 = Played" "loc_of (slot ?T) 1 = Played"
    "type (players ?T 0) = P_O" "type (players ?T 1) = P_X"
    using wonGame_report by (simp_all add: report_def)
  have dO: "loc_of (slot ?T) (nat (playerO (game (slot ?T)))) = Played" using r by simp
  have dX: "loc_of (slot ?T) (nat (playerX (game (slot ?T)))) = Played" using r by simp
  note c = C7_counters_of_a_completed_game [OF ids refl r(5) dO dX, unfolded Let_def]
  have a: "tally (roster 1) (players ?T 1) P_X 1 1 0 0"
    "tally (roster 0) (players ?T 0) P_O 1 0 1 0"
    "last (marks (history (slot ?T))) = P_X"
    using c r by (auto simp add: tally_def)
  have "\<forall>t. t \<noteq> nat (playerO (game (slot ?T))) \<and> t \<noteq> nat (playerX (game (slot ?T)))
          \<longrightarrow> players ?T t = roster t"
    using c by blast
  then have b: "players ?T 2 = roster 2" using r(3) r(4) by simp
  have q: "currentGameState (game (slot ?D)) = Draw" "currentTurn (game (slot ?D)) = P_X"
    "playerO (game (slot ?D)) = 0" "playerX (game (slot ?D)) = 1"
    "\<not> halted (slot ?D)" "loc_of (slot ?D) 0 = Played" "loc_of (slot ?D) 1 = Played"
    "type (players ?D 0) = P_O" "type (players ?D 1) = P_X"
    using drawnGame_report by (simp_all add: report_def)
  have eO: "loc_of (slot ?D) (nat (playerO (game (slot ?D)))) = Played" using q by simp
  have eX: "loc_of (slot ?D) (nat (playerX (game (slot ?D)))) = Played" using q by simp
  note d = C7_counters_of_a_completed_game [OF ids refl q(5) eO eX, unfolded Let_def]
  have e: "tally (roster 0) (players ?D 0) P_O 1 0 0 1"
    "tally (roster 1) (players ?D 1) P_X 1 0 0 1"
    using d q by (auto simp add: tally_def)
  from a b e show ?thesis by (simp add: tally_def roster_def initPlayer_def)
qed

text \<open>
  Claim C1. For every game, the first thread to join (it finds \<open>playerO == -1\<close>) is given
  the role O and blocks in the wait of line 323, which releases \<open>gameMutex\<close>, until an X
  is assigned: woken before that, it waits again. The second thread to join is given the
  role X and goes on without waiting for anybody: it makes the first move of the game at
  once. On its way it wakes the first one: the \<open>notify_all\<close> of its first turn in
  \<open>PlayGame\<close>, which \<open>JoinGame\<close> calls, notifies O, whose predicate \<open>playerX != -1\<close> now
  holds, before X waits for the first time.
\<close>

theorem C1_first_joiner_is_O_and_waits_second_is_X_and_wakes_it:
  assumes ids: "\<forall>t. id_p (ps t) = int t"
    and T: "T = run schedule (initTable ps (initGame i))"
    and nh: "\<not> halted (slot T)"
    and at: "loc_of (slot T) t = AtJoin"
  shows "let g = game (slot T); T' = step (t, rnd) T; g' = game (slot T') in
           (playerO g = - 1 \<longrightarrow>
              playerX g = - 1
              \<and> type (players T' t) = P_O \<and> playerO g' = int t \<and> playerX g' = - 1
              \<and> loc_of (slot T') t = WaitPartner \<and> \<not> runnable (slot T') t
              \<and> \<not> halted (slot T') \<and> history (slot T') = []
              \<and> (\<forall>r. loc_of (slot (step (t, r) T')) t = WaitPartner
                      \<and> game (slot (step (t, r) T')) = g'))
         \<and> (playerO g \<noteq> - 1 \<longrightarrow>
              (let tO = nat (playerO g) in
                 playerO g = int tO \<and> tO \<noteq> t \<and> playerX g = - 1
                 \<and> loc_of (slot T) tO = WaitPartner \<and> type (players T tO) = P_O
                 \<and> \<not> runnable (slot T) tO
                 \<and> type (players T' t) = P_X \<and> playerX g' = int t \<and> playerO g' = playerO g
                 \<and> loc_of (slot T') t = WaitTurn \<and> marks (history (slot T')) = [P_X]
                 \<and> loc_of (slot T') tO = WaitPartner \<and> notified (slot T') tO
                 \<and> runnable (slot T') tO
                 \<and> (\<forall>r. loc_of (slot (step (tO, r) T')) tO \<noteq> WaitPartner)))"
proof -
  let ?g = "game (slot T)" and ?L = "loc_of (slot T)" and ?p = "players T t"
  let ?T' = "step (t, rnd) T"
  have inv: "table_inv ps T" unfolding T by (rule reachable_inv [OF ids])
  then have base: "base_inv ps T" and ph: "phase_inv ps T"
    using nh by (simp_all add: table_inv_def)
  have idt: "id_p ?p = int t" using base by (simp add: base_inv_def)
  have ok: "game_ok ?g (history (slot T))" using base by (simp add: base_inv_def)
  have first: "playerX ?g = - 1
              \<and> type (players ?T' t) = P_O \<and> playerO (game (slot ?T')) = int t
              \<and> playerX (game (slot ?T')) = - 1
              \<and> loc_of (slot ?T') t = WaitPartner \<and> \<not> runnable (slot ?T') t
              \<and> \<not> halted (slot ?T') \<and> history (slot ?T') = []
              \<and> (\<forall>r. loc_of (slot (step (t, r) ?T')) t = WaitPartner
                      \<and> game (slot (step (t, r) ?T')) = game (slot ?T'))"
    if pO: "playerO ?g = - 1"
  proof -
    note D = phase0D [OF ph pO]
    have seg: "segment (?L t) (int rnd) ?p ?g
                 = (WaitPartner, False, ?p\<lparr>type := P_O\<rparr>, ?g\<lparr>playerO := int t\<rparr>)"
      using at pO D(1) idt by (simp add: segment_def JoinGame_eq)
    note st = step_eq [OF nh seg]
    have a: "type (players ?T' t) = P_O" "playerO (game (slot ?T')) = int t"
      "playerX (game (slot ?T')) = - 1" "loc_of (slot ?T') t = WaitPartner"
      "\<not> notified (slot ?T') t" "\<not> halted (slot ?T')" "history (slot ?T') = []"
      unfolding st using D(1) D(4) by (simp_all add: board_diff_same)
    have again: "loc_of (slot (step (t, r) ?T')) t = WaitPartner
                 \<and> game (slot (step (t, r) ?T')) = game (slot ?T')" for r
    proof -
      have "segment (loc_of (slot ?T') t) (int r) (players ?T' t) (game (slot ?T'))
              = (WaitPartner, False, players ?T' t, game (slot ?T'))"
        using a(3) a(4) by (simp add: segment_def JoinGame_wait_eq)
      from step_eq [OF a(6) this] show ?thesis by simp
    qed
    show ?thesis using D(1) a again by (simp add: runnable_def)
  qed
  have second: "playerO ?g = int (nat (playerO ?g)) \<and> nat (playerO ?g) \<noteq> t \<and> playerX ?g = - 1
                 \<and> ?L (nat (playerO ?g)) = WaitPartner \<and> type (players T (nat (playerO ?g))) = P_O
                 \<and> \<not> runnable (slot T) (nat (playerO ?g))
                 \<and> type (players ?T' t) = P_X \<and> playerX (game (slot ?T')) = int t
                 \<and> playerO (game (slot ?T')) = playerO ?g
                 \<and> loc_of (slot ?T') t = WaitTurn \<and> marks (history (slot ?T')) = [P_X]
                 \<and> loc_of (slot ?T') (nat (playerO ?g)) = WaitPartner
                 \<and> notified (slot ?T') (nat (playerO ?g))
                 \<and> runnable (slot ?T') (nat (playerO ?g))
                 \<and> (\<forall>r. loc_of (slot (step (nat (playerO ?g), r) ?T')) (nat (playerO ?g))
                          \<noteq> WaitPartner)"
    if pO: "playerO ?g \<noteq> - 1"
  proof -
    let ?o = "nat (playerO ?g)"
    have pX: "playerX ?g = - 1"
    proof (rule ccontr)
      assume pX: "playerX ?g \<noteq> - 1"
      note D = phase2D [OF ph pO pX]
      have "in_game (?L t)" using at by (simp add: in_game_def)
      then have "t = nat (playerO ?g) \<or> t = nat (playerX ?g)" using D(5) [of t] by blast
      moreover have "?L (nat (playerO ?g)) \<noteq> AtJoin \<and> ?L (nat (playerX ?g)) \<noteq> AtJoin"
        using D(6) by (auto dest: pair_inv_in_game split: if_splits)
      ultimately show False using at by auto
    qed
    note D = phase1D [OF ph pO pX]
    have to: "?o \<noteq> t" using D(2) at by auto
    have tyO: "type (players T ?o) = P_O" using D(3) by (simp add: tally_def)
    have blocked: "\<not> runnable (slot T) ?o" using D(2) D(8) by (simp add: runnable_def)
    let ?p1 = "?p\<lparr>type := P_X\<rparr>" and ?g1 = "?g\<lparr>playerX := int t\<rparr>"
    let ?g2 = "?g1\<lparr>currentTurn := otherType (type ?p1)\<rparr>"
    have seg0: "segment (?L t) (int rnd) ?p ?g = PlayGame_woken (int rnd) ?p1 ?g1"
      using at pO idt by (simp add: segment_def JoinGame_eq)
    have sp: "currentGameState ?g1 = StillPlaying" using D(5) by simp
    have "currentTurn ?g = P_X" using ok D(5) D(6) by (simp add: game_ok_def)
    then have tn: "currentTurn ?g1 = type ?p1" by simp
    have empty: "gameBoard ?g2 = (\<lambda>row col. P_None)" using D(7) by simp
    have mv: "MakeAMove (int rnd) ?p1 ?g2
              = (StillPlaying, ?p1, setCell (pickedRow (int rnd) ?g2) (pickedCol (int rnd) ?g2) (type ?p1) ?g2)"
      by (rule first_move [OF _ empty]) simp_all
    note seg = seg0 [unfolded PlayGame_woken_turn [OF sp tn mv]]
    note st = step_eq [OF nh seg]
    have ne: "possibleMoves ?g2 \<noteq> []" using empty by (simp add: possibleMoves_def)
    have cell: "pickedRow (int rnd) ?g2 \<in> {0, 1, 2}" "pickedCol (int rnd) ?g2 \<in> {0, 1, 2}"
      "gameBoard ?g2 (pickedRow (int rnd) ?g2) (pickedCol (int rnd) ?g2) \<noteq> P_X"
      using picked_cell [OF _ ne, of "int rnd"] by simp_all
    have d: "board_diff (gameBoard ?g)
               (gameBoard (setCell (pickedRow (int rnd) ?g2) (pickedCol (int rnd) ?g2) P_X ?g2))
             = [(pickedRow (int rnd) ?g2, pickedCol (int rnd) ?g2, P_X)]"
      using board_diff_setCell [OF cell] by simp
    have a: "type (players ?T' t) = P_X" "playerX (game (slot ?T')) = int t"
      "playerO (game (slot ?T')) = playerO ?g" "loc_of (slot ?T') t = WaitTurn"
      "loc_of (slot ?T') ?o = WaitPartner" "notified (slot ?T') ?o" "\<not> halted (slot ?T')"
      unfolding st using to D(2) by (simp_all add: setCell_def notify_all_def)
    have h: "marks (history (slot ?T')) = [P_X]"
      unfolding st using D(6) d by (simp add: marks_def)
    have woken: "loc_of (slot (step (?o, r) ?T')) ?o \<noteq> WaitPartner" for r
    proof -
      obtain l n p' g' where
        s2: "segment (loc_of (slot ?T') ?o) (int r) (players ?T' ?o) (game (slot ?T')) = (l, n, p', g')"
        by (cases "segment (loc_of (slot ?T') ?o) (int r) (players ?T' ?o) (game (slot ?T'))") auto
      have "PlayGame_woken (int r) (players ?T' ?o) (game (slot ?T')) = (l, n, p', g')"
        using s2 a(2) a(3) a(5) pO by (simp add: segment_def JoinGame_wait_eq)
      from PlayGame_woken_summary [OF this, of "[]"] have "l \<noteq> WaitPartner" by auto
      then show ?thesis using step_eq [OF a(7) s2] by simp
    qed
    have "runnable (slot ?T') ?o" using a by (simp add: runnable_def)
    then show ?thesis using D(1) to pX D(2) tyO blocked a h woken by simp
  qed
  show ?thesis unfolding Let_def using first second by blast
qed

text \<open>The theorem when thread 0 joins first and when thread 1 joins second.\<close>

theorem C1_witness:
  "type (players (step (0, 0) (run twoClaims (initTable roster (initGame 0)))) 0) = P_O
   \<and> loc_of (slot (step (0, 0) (run twoClaims (initTable roster (initGame 0))))) 0 = WaitPartner
   \<and> \<not> runnable (slot (step (0, 0) (run twoClaims (initTable roster (initGame 0))))) 0
   \<and> \<not> runnable (slot (run oneJoined (initTable roster (initGame 0)))) 0
   \<and> type (players (step (1, 4) (run oneJoined (initTable roster (initGame 0)))) 1) = P_X
   \<and> loc_of (slot (step (1, 4) (run oneJoined (initTable roster (initGame 0))))) 1 = WaitTurn
   \<and> marks (history (slot (step (1, 4) (run oneJoined (initTable roster (initGame 0)))))) = [P_X]
   \<and> notified (slot (step (1, 4) (run oneJoined (initTable roster (initGame 0))))) 0
   \<and> runnable (slot (step (1, 4) (run oneJoined (initTable roster (initGame 0))))) 0"
proof -
  let ?A = "run twoClaims (initTable roster (initGame 0))"
  let ?B = "run oneJoined (initTable roster (initGame 0))"
  have ids: "\<forall>t. id_p (roster t) = int t" by (simp add: roster_def initPlayer_def)
  have a: "\<not> halted (slot ?A)" "loc_of (slot ?A) 0 = AtJoin" "playerO (game (slot ?A)) = - 1"
    using twoClaims_report by (simp_all add: report_def)
  have b: "\<not> halted (slot ?B)" "loc_of (slot ?B) 1 = AtJoin" "playerO (game (slot ?B)) = 0"
    using oneJoined_report by (simp_all add: report_def)
  note cA = C1_first_joiner_is_O_and_waits_second_is_X_and_wakes_it
              [OF ids refl a(1) a(2), of 0, unfolded Let_def]
  note cB = C1_first_joiner_is_O_and_waits_second_is_X_and_wakes_it
              [OF ids refl b(1) b(2), of 4, unfolded Let_def]
  have 1: "type (players (step (0, 0) ?A) 0) = P_O"
    "loc_of (slot (step (0, 0) ?A)) 0 = WaitPartner"
    "\<not> runnable (slot (step (0, 0) ?A)) 0"
    using cA a(3) by simp_all
  have nb: "playerO (game (slot ?B)) \<noteq> - 1" "nat (playerO (game (slot ?B))) = 0"
    using b(3) by simp_all
  have 2: "\<not> runnable (slot ?B) 0"
    "type (players (step (1, 4) ?B) 1) = P_X"
    "loc_of (slot (step (1, 4) ?B)) 1 = WaitTurn"
    "marks (history (slot (step (1, 4) ?B))) = [P_X]"
    "notified (slot (step (1, 4) ?B)) 0"
    "runnable (slot (step (1, 4) ?B)) 0"
    using cB [THEN conjunct2, rule_format, OF nb(1)] unfolding nb(2) by simp_all
  from 1 2 show ?thesis by blast
qed

text \<open>
  Claim C6. A call of \<open>MakeAMove\<close> returns \<open>Draw\<close> if and only if no cell of the board is
  empty at the call; otherwise it places a mark on an empty cell and returns \<open>Won\<close> or
  \<open>StillPlaying\<close>. Hence a thread returns only from a game that is \<open>Won\<close> or \<open>Draw\<close>,
  a game that is over keeps its state and its board, and a game is not left in progress
  with a full board: the player whose turn it is has been notified, and its turn ends the
  game as \<open>Draw\<close>.
\<close>

theorem C6_draw_iff_board_full:
  assumes rnd: "0 \<le> rnd" and ids: "\<forall>t. id_p (ps t) = int t"
  shows "(fst (MakeAMove rnd p g) = Draw \<longleftrightarrow>
            (\<forall>row \<in> {0, 1, 2}. \<forall>col \<in> {0, 1, 2}. gameBoard g row col \<noteq> P_None))
       \<and> (fst (MakeAMove rnd p g) = Draw \<longrightarrow> snd (snd (MakeAMove rnd p g)) = g)
       \<and> (fst (MakeAMove rnd p g) \<noteq> Draw \<longrightarrow>
            (fst (MakeAMove rnd p g) = Won \<or> fst (MakeAMove rnd p g) = StillPlaying)
            \<and> gameBoard g (pickedRow rnd g) (pickedCol rnd g) = P_None
            \<and> snd (snd (MakeAMove rnd p g)) = setCell (pickedRow rnd g) (pickedCol rnd g) (type p) g)
       \<and> (let T = run schedule (initTable ps (initGame i)); gT = game (slot T) in
            (\<forall>t. loc_of (slot T) t = Played \<longrightarrow>
                 currentGameState gT = Won \<or> currentGameState gT = Draw)
            \<and> (currentGameState gT \<noteq> StillPlaying \<longrightarrow>
                 (\<forall>tr. currentGameState (game (slot (step tr T))) = currentGameState gT
                       \<and> gameBoard (game (slot (step tr T))) = gameBoard gT))
            \<and> (\<not> halted (slot T) \<and> currentGameState gT = StillPlaying
                 \<and> (\<forall>row \<in> {0, 1, 2}. \<forall>col \<in> {0, 1, 2}. gameBoard gT row col \<noteq> P_None) \<longrightarrow>
                 (let w = (if currentTurn gT = P_X then nat (playerX gT) else nat (playerO gT)) in
                    runnable (slot T) w
                    \<and> (\<forall>r. currentGameState (game (slot (step (w, r) T))) = Draw))))"
proof -
  let ?T = "run schedule (initTable ps (initGame i))"
  let ?gT = "game (slot ?T)"
  have f1: "fst (MakeAMove rnd p g) = Draw \<longleftrightarrow>
            (\<forall>row \<in> {0, 1, 2}. \<forall>col \<in> {0, 1, 2}. gameBoard g row col \<noteq> P_None)"
    unfolding MakeAMove_state by (rule possibleMoves_empty)
  have f2: "snd (snd (MakeAMove rnd p g)) = g" if "fst (MakeAMove rnd p g) = Draw"
    using that by (simp add: MakeAMove_state MakeAMove_full)
  have f3: "(fst (MakeAMove rnd p g) = Won \<or> fst (MakeAMove rnd p g) = StillPlaying)
            \<and> gameBoard g (pickedRow rnd g) (pickedCol rnd g) = P_None
            \<and> snd (snd (MakeAMove rnd p g)) = setCell (pickedRow rnd g) (pickedCol rnd g) (type p) g"
    if "fst (MakeAMove rnd p g) \<noteq> Draw"
  proof -
    have ne: "possibleMoves g \<noteq> []" using that by (simp add: MakeAMove_state)
    from picked_cell [OF rnd ne] show ?thesis by (simp add: MakeAMove_open [OF ne])
  qed
  have inv: "table_inv ps ?T" by (rule reachable_inv [OF ids])
  then have base: "base_inv ps ?T" by (simp add: table_inv_def)
  have ok: "game_ok ?gT (history (slot ?T))" using base by (simp add: base_inv_def)
  have r1: "currentGameState ?gT = Won \<or> currentGameState ?gT = Draw"
    if "loc_of (slot ?T) t = Played" for t
  proof -
    have "currentGameState ?gT \<noteq> StillPlaying" using base that by (auto simp add: base_inv_def)
    then show ?thesis by (cases "currentGameState ?gT") simp_all
  qed
  have r2: "currentGameState (game (slot (step tr ?T))) = currentGameState ?gT
            \<and> gameBoard (game (slot (step tr ?T))) = gameBoard ?gT"
    if "currentGameState ?gT \<noteq> StillPlaying" for tr
    by (rule step_over [OF that])
  have r3: "runnable (slot ?T) (if currentTurn ?gT = P_X then nat (playerX ?gT) else nat (playerO ?gT))
          \<and> (\<forall>r. currentGameState (game (slot (step
               (if currentTurn ?gT = P_X then nat (playerX ?gT) else nat (playerO ?gT), r) ?T))) = Draw)"
    if h: "\<not> halted (slot ?T) \<and> currentGameState ?gT = StillPlaying
           \<and> (\<forall>row \<in> {0, 1, 2}. \<forall>col \<in> {0, 1, 2}. gameBoard ?gT row col \<noteq> P_None)"
  proof -
    have nh: "\<not> halted (slot ?T)" and sp: "currentGameState ?gT = StillPlaying" using h by simp_all
    have full: "possibleMoves ?gT = []" using h unfolding possibleMoves_empty by blast
    have ph: "phase_inv ps ?T" using inv nh by (simp add: table_inv_def)
    from full_board_turn [OF nh ph ok sp full] show ?thesis by blast
  qed
  show ?thesis unfolding Let_def using f1 f2 f3 r1 r2 r3 by blast
qed

text \<open>The theorem at the full board of \<open>boardFull\<close>, where O (thread 0) is to move.\<close>

theorem C6_witness:
  "currentGameState (game (slot (run boardFull (initTable roster (initGame 0))))) = StillPlaying
   \<and> possibleMoves (game (slot (run boardFull (initTable roster (initGame 0))))) = []
   \<and> fst (MakeAMove 5 (playerAs 0 P_O) (game (slot (run boardFull (initTable roster (initGame 0))))))
       = Draw
   \<and> runnable (slot (run boardFull (initTable roster (initGame 0)))) 0
   \<and> currentGameState (game (slot (step (0, 3) (run boardFull (initTable roster (initGame 0)))))) = Draw
   \<and> fst (MakeAMove 5 (playerAs 0 P_O) (initGame 0)) = StillPlaying"
proof -
  let ?T = "run boardFull (initTable roster (initGame 0))"
  let ?g = "game (slot ?T)"
  have rnd: "(0::int) \<le> 5" by simp
  have ids: "\<forall>t. id_p (roster t) = int t" by (simp add: roster_def initPlayer_def)
  have r: "currentGameState ?g = StillPlaying" "currentTurn ?g = P_O" "playerO ?g = 0"
    "\<not> halted (slot ?T)"
    using boardFull_report by (simp_all add: report_def)
  have full: "\<forall>row \<in> {0, 1, 2}. \<forall>col \<in> {0, 1, 2}. gameBoard ?g row col \<noteq> P_None"
    using boardFull_moves unfolding possibleMoves_empty .
  note c = C6_draw_iff_board_full [OF rnd ids, of "playerAs 0 P_O" ?g boardFull 0, unfolded Let_def]
  have d: "fst (MakeAMove 5 (playerAs 0 P_O) ?g) = Draw" using c full by blast
  have "runnable (slot ?T) (if currentTurn ?g = P_X then nat (playerX ?g) else nat (playerO ?g))
        \<and> (\<forall>r. currentGameState (game (slot (step
              (if currentTurn ?g = P_X then nat (playerX ?g) else nat (playerO ?g), r) ?T))) = Draw)"
    using c r(1) r(4) full by blast
  then have w: "runnable (slot ?T) 0" "currentGameState (game (slot (step (0, 3) ?T))) = Draw"
    using r(2) r(3) by simp_all
  have s: "fst (MakeAMove 5 (playerAs 0 P_O) (initGame 0)) = StillPlaying"
    by (simp add: model_defs playerAs_def split del: if_split)
  from r(1) boardFull_moves d w s show ?thesis by blast
qed

section \<open>Claims about \<open>main\<close>\<close>

text \<open>
  Claim C8 says that between two rounds the run barrier is fully reset: the counter of
  threads back to 0 and the starting gun back to false. The code does not do the second:
  \<open>gunFlag\<close> is set to false once, at line 512 before the loop, and the reset of lines
  576-591 leaves it alone. After a first round of two players and one game the games and
  the players are as \<open>main_init\<close> made them and \<open>totalPlayerCount\<close> is 0, but \<open>gunFlag\<close>
  is still true: a thread of the second round does not block at the starting gun, as a
  thread of the first round does.
\<close>

theorem C8_starting_gun_is_not_reset:
  "poolOfPlayers firstRound = \<lparr>totalPlayerCount = 0, gunFlag = True\<rparr>
   \<and> \<not> blocksAtStartingGun (poolOfPlayers firstRound)
   \<and> perGameData firstRound = perGameData (main_init 2 1)
   \<and> perPlayerData firstRound = perPlayerData (main_init 2 1)
   \<and> poolOfPlayers (main_init 2 1) = \<lparr>totalPlayerCount = 0, gunFlag = False\<rparr>
   \<and> blocksAtStartingGun (poolOfPlayers (main_init 2 1))"
proof -
  let ?T = "run wonGame (initTable roster (initGame 0))"
  have g: "resetGame (game (slot ?T)) = initGame 0"
    unfolding resetGame_init wonGame_end by simp
  have p: "resetPlayer (players ?T 0) = initPlayer 0" "resetPlayer (players ?T 1) = initPlayer 1"
    unfolding resetPlayer_init wonGame_end by simp_all
  show ?thesis
    unfolding firstRound_def Let_def
    by (simp add: g p main_round_def main_reset_def main_init_def pool_step_def initPlayerPool_def
          blocksAtStartingGun_def upt_conv_Cons del: One_nat_def)
qed




end
